theory Spec2Isabelle
  imports Main
begin

section \<open>Errors\<close>

text \<open>
  The exceptions the scheduler can meet: \<open>ValueError\<close> from \<open>strptime\<close> on a string
  that is not a date, \<open>OverflowError\<close> from date arithmetic past 9999-12-31, and
  \<open>StoreError\<close> for any exception raised by a database call (\<open>sqlite3.Error\<close>).
\<close>

datatype error = ValueError | OverflowError | StoreError

section \<open>Calendar dates (\<open>datetime.date\<close>)\<close>

text \<open>
  \<open>datetime.date\<close> is a proleptic Gregorian date with \<open>1 \<le> year \<le> 9999\<close>.
  \<open>d + timedelta(days=n)\<close> is the date \<open>n\<close> days later, or \<open>OverflowError\<close> when that
  date lies after 9999-12-31.
\<close>

datatype pdate = Date (year: nat) (month: nat) (day: nat)

definition is_leap :: "nat \<Rightarrow> bool" where
  "is_leap y = (y mod 4 = 0 \<and> (y mod 100 \<noteq> 0 \<or> y mod 400 = 0))"

definition days_in_month :: "nat \<Rightarrow> nat \<Rightarrow> nat" where
  "days_in_month y m =
     (if m = 2 then (if is_leap y then 29 else 28)
      else if m = 4 \<or> m = 6 \<or> m = 9 \<or> m = 11 then 30 else 31)"

definition valid_date :: "pdate \<Rightarrow> bool" where
  "valid_date d = (1 \<le> year d \<and> year d \<le> 9999 \<and> 1 \<le> month d \<and> month d \<le> 12
      \<and> 1 \<le> day d \<and> day d \<le> days_in_month (year d) (month d))"

definition days_before_year :: "nat \<Rightarrow> nat" where
  "days_before_year y = (y - 1) * 365 + (y - 1) div 4 - (y - 1) div 100 + (y - 1) div 400"

definition days_before_month :: "nat \<Rightarrow> nat \<Rightarrow> nat" where
  "days_before_month y m = sum_list (map (days_in_month y) [1..<m])"

text \<open>\<open>date.toordinal()\<close>: the day number, 0001-01-01 being day 1.\<close>

definition toordinal :: "pdate \<Rightarrow> nat" where
  "toordinal d = days_before_year (year d) + days_before_month (year d) (month d) + day d"

text \<open>\<open>date.max.toordinal()\<close>, the day number of 9999-12-31.\<close>

definition max_ordinal :: nat where
  "max_ordinal = 3652059"

definition next_day :: "pdate \<Rightarrow> pdate" where
  "next_day d =
     (if day d < days_in_month (year d) (month d) then Date (year d) (month d) (day d + 1)
      else if month d < 12 then Date (year d) (month d + 1) 1
      else Date (year d + 1) 1 1)"

text \<open>\<open>d + datetime.timedelta(days=n)\<close>.\<close>

fun date_add :: "pdate \<Rightarrow> nat \<Rightarrow> error + pdate" where
  "date_add d 0 = Inr d"
| "date_add d (Suc n) =
     (if 9999 < year (next_day d) then Inl OverflowError else date_add (next_day d) n)"

section \<open>Date strings (\<open>strftime\<close>, \<open>strptime\<close>)\<close>

definition digit_char :: "nat \<Rightarrow> char" where
  "digit_char n = char_of (48 + n)"

definition is_digit :: "char \<Rightarrow> bool" where
  "is_digit c = (48 \<le> (of_char c :: nat) \<and> (of_char c :: nat) \<le> 57)"

definition digit_val :: "char \<Rightarrow> nat" where
  "digit_val c = of_char c - 48"

definition pad2 :: "nat \<Rightarrow> string" where
  "pad2 n = [digit_char (n div 10 mod 10), digit_char (n mod 10)]"

definition pad4 :: "nat \<Rightarrow> string" where
  "pad4 n = [digit_char (n div 1000 mod 10), digit_char (n div 100 mod 10),
             digit_char (n div 10 mod 10), digit_char (n mod 10)]"

text \<open>
  \<open>d.strftime("%Y-%m-%d")\<close>. From the year 1000 on this is what Python prints on every
  platform. For earlier years the C library decides whether the year is padded to four
  digits (glibc prints \<open>1-01-02\<close>), so the text of such a date is only what the
  padding platforms print, and the statements below that are about every date are made
  for years from 1000 on.
\<close>

definition strftime_date :: "pdate \<Rightarrow> string" where
  "strftime_date d = pad4 (year d) @ ''-'' @ pad2 (month d) @ ''-'' @ pad2 (day d)"

text \<open>
  \<open>datetime.strptime(s, "%Y-%m-%d").date()\<close>. The directives are the regular expressions
  of \<open>_strptime.py\<close>: \<open>%Y\<close> is four digits, \<open>%m\<close> is \<open>1[0-2]|0[1-9]|[1-9]\<close>, \<open>%d\<close> is
  \<open>3[01]|[12]\d|0[1-9]|[1-9]| [1-9]\<close>; the whole string has to match, and the numbers
  have to form a date. Anything else raises \<open>ValueError\<close>.
\<close>

definition parse_year :: "string \<Rightarrow> nat option" where
  "parse_year s =
     (case s of
        [a, b, c, e] \<Rightarrow>
          if is_digit a \<and> is_digit b \<and> is_digit c \<and> is_digit e
          then Some (1000 * digit_val a + 100 * digit_val b + 10 * digit_val c + digit_val e)
          else None
      | _ \<Rightarrow> None)"

definition parse_month :: "string \<Rightarrow> nat option" where
  "parse_month s =
     (case s of
        [a] \<Rightarrow> if is_digit a \<and> 1 \<le> digit_val a then Some (digit_val a) else None
      | [a, b] \<Rightarrow>
          if a = CHR ''1'' \<and> is_digit b \<and> digit_val b \<le> 2 then Some (10 + digit_val b)
          else if a = CHR ''0'' \<and> is_digit b \<and> 1 \<le> digit_val b then Some (digit_val b)
          else None
      | _ \<Rightarrow> None)"

definition parse_day :: "string \<Rightarrow> nat option" where
  "parse_day s =
     (case s of
        [a] \<Rightarrow> if is_digit a \<and> 1 \<le> digit_val a then Some (digit_val a) else None
      | [a, b] \<Rightarrow>
          if a = CHR ''3'' \<and> is_digit b \<and> digit_val b \<le> 1 then Some (30 + digit_val b)
          else if (a = CHR ''1'' \<or> a = CHR ''2'') \<and> is_digit b
            then Some (10 * digit_val a + digit_val b)
          else if (a = CHR ''0'' \<or> a = CHR '' '') \<and> is_digit b \<and> 1 \<le> digit_val b
            then Some (digit_val b)
          else None
      | _ \<Rightarrow> None)"

definition strptime_date :: "string \<Rightarrow> error + pdate" where
  "strptime_date s =
     (case drop 4 s of
        c # r \<Rightarrow>
          (case dropWhile (\<lambda>x. x \<noteq> CHR ''-'') r of
             c' # ds \<Rightarrow>
               (case (parse_year (take 4 s), parse_month (takeWhile (\<lambda>x. x \<noteq> CHR ''-'') r),
                      parse_day ds) of
                  (Some y, Some m, Some d) \<Rightarrow>
                    if c = CHR ''-'' \<and> valid_date (Date y m d) then Inr (Date y m d)
                    else Inl ValueError
                | _ \<Rightarrow> Inl ValueError)
           | [] \<Rightarrow> Inl ValueError)
      | [] \<Rightarrow> Inl ValueError)"

text \<open>
  \<open>datetime.datetime.now()\<close>, as far as the minute: the scheduler only ever formats it with
  \<open>"%Y-%m-%d %H:%M"\<close>.
\<close>

datatype pdatetime = DateTime (dt_date: pdate) (hour: nat) (minute: nat)

definition valid_datetime :: "pdatetime \<Rightarrow> bool" where
  "valid_datetime n = (valid_date (dt_date n) \<and> hour n < 24 \<and> minute n < 60)"

definition strftime_minute :: "pdatetime \<Rightarrow> string" where
  "strftime_minute n =
     strftime_date (dt_date n) @ '' '' @ pad2 (hour n) @ '':'' @ pad2 (minute n)"

text \<open>
  \<open>str.lower()\<close> on ASCII text: the letters A to Z are mapped, every other character is
  kept. Python lower-cases other scripts as well (the Kelvin sign U+212A becomes
  \<open>k\<close>), so for text that is not ASCII \<open>lower\<close> is not Python's function; \<open>is_ascii\<close>
  marks the text on which it is.
\<close>

definition is_ascii :: "string \<Rightarrow> bool" where
  "is_ascii s = list_all (\<lambda>c. (of_char c :: nat) < 128) s"

definition lower_char :: "char \<Rightarrow> char" where
  "lower_char c =
     (if 65 \<le> (of_char c :: nat) \<and> (of_char c :: nat) \<le> 90
      then char_of ((of_char c :: nat) + 32) else c)"

definition lower :: "string \<Rightarrow> string" where
  "lower s = map lower_char s"

section \<open>The recurrence engine (\<open>compute_next_date\<close>)\<close>

text \<open>
  \<open>raining2.py\<close>, lines 88-101: the date arrives as the text of the \<open>date\<close> column and
  the next date is returned as text; \<open>None\<close> for any recurrence other than
  \<open>"daily"\<close> and \<open>"weekly"\<close>. The string is parsed before the recurrence is looked at.
\<close>

definition compute_next_date :: "string \<Rightarrow> string \<Rightarrow> error + string option" where
  "compute_next_date date_str recurrence =
     (case strptime_date date_str of
        Inl e \<Rightarrow> Inl e
      | Inr d \<Rightarrow>
          if recurrence = ''daily'' then
            (case date_add d 1 of Inl e \<Rightarrow> Inl e | Inr nd \<Rightarrow> Inr (Some (strftime_date nd)))
          else if recurrence = ''weekly'' then
            (case date_add d 7 of Inl e \<Rightarrow> Inl e | Inr nd \<Rightarrow> Inr (Some (strftime_date nd)))
          else Inr None)"

text \<open>
  \<open>hyper5.py\<close>, lines 130-138: the MySQL variant receives a \<open>datetime.date\<close> (the value of
  a \<open>DATE\<close> column) and returns one.
\<close>

definition compute_next_date_h5 :: "pdate \<Rightarrow> string \<Rightarrow> error + pdate option" where
  "compute_next_date_h5 date_obj recurrence =
     (if recurrence = ''daily'' then
        (case date_add date_obj 1 of Inl e \<Rightarrow> Inl e | Inr nd \<Rightarrow> Inr (Some nd))
      else if recurrence = ''weekly'' then
        (case date_add date_obj 7 of Inl e \<Rightarrow> Inl e | Inr nd \<Rightarrow> Inr (Some nd))
      else Inr None)"

section \<open>The task store (\<open>raining2.py\<close>, table \<open>tasks\<close>)\<close>

text \<open>
  One row of the SQLite table created by \<open>ensure_schema\<close> (lines 56-66): \<open>title\<close>,
  \<open>date\<close> and \<open>time\<close> are \<open>TEXT NOT NULL\<close>; \<open>description\<close> and \<open>recurrence\<close> are
  nullable \<open>TEXT\<close> (\<open>None\<close> is SQL \<open>NULL\<close>); \<open>id\<close> is the \<open>INTEGER PRIMARY KEY\<close>.
\<close>

record task =
  task_id :: nat
  title :: string
  date :: string
  time :: string
  description :: "string option"
  completed :: int
  recurrence :: "string option"

text \<open>The rowid SQLite gives a row inserted without an id: one more than the largest.\<close>

definition next_id :: "task list \<Rightarrow> nat" where
  "next_id rows = Suc (fold max (map task_id rows) 0)"

text \<open>
  Lines 160-163: \<open>INSERT INTO tasks (title, date, time, description, completed, recurrence)
  VALUES (?, ?, ?, ?, 0, ?)\<close>.
\<close>

definition insert_task ::
  "string \<Rightarrow> string \<Rightarrow> string \<Rightarrow> string option \<Rightarrow> string \<Rightarrow> task list \<Rightarrow> task list" where
  "insert_task t d tm desc r rows =
     rows @ [\<lparr>task_id = next_id rows, title = t, date = d, time = tm, description = desc,
              completed = 0, recurrence = Some r\<rparr>]"

text \<open>Line 117: \<open>SELECT * FROM tasks WHERE date || ' ' || time = ?\<close>.\<close>

definition find_due :: "string \<Rightarrow> task list \<Rightarrow> task list" where
  "find_due key rows = filter (\<lambda>t. date t @ '' '' @ time t = key) rows"

text \<open>
  Lines 152-155: \<open>SELECT COUNT(*) FROM tasks WHERE title=? AND date=? AND time=? AND
  recurrence=?\<close>. A \<open>NULL\<close> recurrence equals nothing.
\<close>

definition count_same :: "string \<Rightarrow> string \<Rightarrow> string \<Rightarrow> string \<Rightarrow> task list \<Rightarrow> nat" where
  "count_same t d tm r rows =
     length (filter (\<lambda>x. title x = t \<and> date x = d \<and> time x = tm \<and> recurrence x = Some r) rows)"

section \<open>The alarm scheduler (\<open>raining2.py\<close>, \<open>alarm_checker\<close>)\<close>

text \<open>
  The state the background thread works on: the table, the set
  \<open>handled_this_minute\<close>, the alarm events handed to the sink (title and description of
  each popup, in order), the exceptions printed by the \<open>except\<close> clause, and \<open>faults\<close>:
  for each coming database call, in order, whether it will raise (an empty list: no call
  raises).
\<close>

record sched =
  db :: "task list"
  handled :: "(nat \<times> string) set"
  alarms :: "(string \<times> string option) list"
  errlog :: "error list"
  faults :: "bool list"

text \<open>One database call: it raises when the head of \<open>faults\<close> says so.\<close>

definition store_call :: "sched \<Rightarrow> bool \<times> sched" where
  "store_call s =
     (case faults s of [] \<Rightarrow> (False, s) | f # fs \<Rightarrow> (f, s\<lparr>faults := fs\<rparr>))"

text \<open>
  Lines 149-164, for a row whose recurrence \<open>r\<close> is daily or weekly up to letter case:
  the next date is computed from the lower-cased recurrence, the duplicate check and the
  insert use the recurrence as stored. The result is the exception that left the block,
  if any, and the state at that point. The \<open>SELECT COUNT(*)\<close>, the \<open>INSERT\<close> and
  \<open>conn.commit()\<close> are three calls; when the commit raises, the inserted row stays in the
  open transaction of the connection, which is the table as every later query of the
  program sees it.
\<close>

definition advance :: "task \<Rightarrow> string \<Rightarrow> sched \<Rightarrow> error option \<times> sched" where
  "advance m r s =
     (case compute_next_date (date m) (lower r) of
        Inl e \<Rightarrow> (Some e, s)
      | Inr None \<Rightarrow> (None, s)
      | Inr (Some next_date) \<Rightarrow>
          if next_date = [] then (None, s)
          else
            (case store_call s of
               (True, s1) \<Rightarrow> (Some StoreError, s1)
             | (False, s1) \<Rightarrow>
                 if count_same (title m) next_date (time m) r (db s1) = 0 then
                   (case store_call s1 of
                      (True, s2) \<Rightarrow> (Some StoreError, s2)
                    | (False, s2) \<Rightarrow>
                        (case store_call
                                (s2\<lparr>db := insert_task (title m) next_date (time m)
                                            (description m) r (db s2)\<rparr>) of
                           (True, s3) \<Rightarrow> (Some StoreError, s3)
                         | (False, s3) \<Rightarrow> (None, s3)))
                 else (None, s1)))"

text \<open>
  Lines 121-145: the row is recorded in \<open>handled_this_minute\<close> under the current key
  and its alarm (sound and popup, here the pair of title and description) is emitted.
\<close>

definition emit_alarm :: "string \<Rightarrow> task \<Rightarrow> sched \<Rightarrow> sched" where
  "emit_alarm current_key m s =
     s\<lparr>handled := insert (task_id m, current_key) (handled s),
       alarms := alarms s @ [(title m, description m)]\<rparr>"

text \<open>
  Lines 120-164, the body of \<open>for m in matches\<close>: skip a row already in
  \<open>handled_this_minute\<close>; otherwise record it, emit the alarm, and advance a row whose
  recurrence is not empty and is \<open>daily\<close> or \<open>weekly\<close> once lower-cased.
\<close>

definition handle_match :: "string \<Rightarrow> task \<Rightarrow> sched \<Rightarrow> error option \<times> sched" where
  "handle_match current_key m s =
     (if (task_id m, current_key) \<in> handled s then (None, s)
      else
        (case recurrence m of
           None \<Rightarrow> (None, emit_alarm current_key m s)
         | Some r \<Rightarrow>
             if r \<noteq> [] \<and> (lower r = ''daily'' \<or> lower r = ''weekly'')
             then advance m r (emit_alarm current_key m s)
             else (None, emit_alarm current_key m s)))"

text \<open>Lines 119-164: the loop stops at the first exception.\<close>

fun process_matches :: "string \<Rightarrow> task list \<Rightarrow> sched \<Rightarrow> error option \<times> sched" where
  "process_matches current_key [] s = (None, s)"
| "process_matches current_key (m # ms) s =
     (case handle_match current_key m s of
        (Some e, s') \<Rightarrow> (Some e, s')
      | (None, s') \<Rightarrow> process_matches current_key ms s')"

text \<open>
  Lines 114-166, one check: the key of the current minute, the query, the loop, and
  \<open>except Exception as e: print(...)\<close> around query and loop.
\<close>

definition tick :: "pdatetime \<Rightarrow> sched \<Rightarrow> sched" where
  "tick now s =
     (let current_key = strftime_minute now in
      case store_call s of
        (True, s1) \<Rightarrow> s1\<lparr>errlog := errlog s1 @ [StoreError]\<rparr>
      | (False, s1) \<Rightarrow>
          (case process_matches current_key (find_due current_key (db s1)) s1 of
             (Some e, s2) \<Rightarrow> s2\<lparr>errlog := errlog s2 @ [e]\<rparr>
           | (None, s2) \<Rightarrow> s2))"

text \<open>
  Lines 114-174, one pass of the \<open>while\<close> loop: the check, the sleep, and
  \<open>handled_this_minute.clear()\<close>.
\<close>

definition iteration :: "pdatetime \<Rightarrow> sched \<Rightarrow> sched" where
  "iteration now s = (tick now s)\<lparr>handled := {}\<rparr>"

text \<open>
  Line 113, \<open>while not stop_event.is_set()\<close>, run over what the thread observes at the
  head of each pass: whether the stop event is set, and the clock. The list is the part
  of the run that is looked at; the thread returns when it sees the event set. Which
  lists of readings a run can produce is a matter of the sleep between two passes:
  \<open>forward_clock\<close> below.
\<close>

datatype observation = Observation (stop_set: bool) (clock: pdatetime)

fun alarm_checker :: "observation list \<Rightarrow> sched \<Rightarrow> sched" where
  "alarm_checker [] s = s"
| "alarm_checker (ob # obs) s =
     (if stop_set ob then s else alarm_checker obs (iteration (clock ob) s))"

text \<open>
  Lines 170-173: between two readings of the clock the thread sleeps seven times ten
  seconds (the sleep is cut short only when the stop event is set, and then no further
  pass follows). With a wall clock that is not set back, every reading therefore falls
  in a later minute than the reading before it. The readings are taken from the year
  1000 on, where the minute key is the same text on every platform.
\<close>

definition minute_index :: "pdatetime \<Rightarrow> nat" where
  "minute_index n = (toordinal (dt_date n) * 24 + hour n) * 60 + minute n"

definition forward_clock :: "observation list \<Rightarrow> bool" where
  "forward_clock obs =
     (list_all (\<lambda>ob. valid_datetime (clock ob) \<and> 1000 \<le> year (dt_date (clock ob))) obs
      \<and> sorted_wrt (\<lambda>a b. minute_index (clock a) < minute_index (clock b)) obs)"



text \<open>Line 112: the thread starts with an empty \<open>handled_this_minute\<close>.\<close>

definition initial :: "task list \<Rightarrow> bool list \<Rightarrow> sched" where
  "initial rows fs = \<lparr>db = rows, handled = {}, alarms = [], errlog = [], faults = fs\<rparr>"

section \<open>The first scheduler (\<open>autumn.py\<close>, \<open>check_alarms\<close>)\<close>

text \<open>
  \<open>autumn.py\<close>, lines 16-22: the table of the first planner, without recurrence.
\<close>

record autumn_task =
  a_id :: nat
  a_title :: string
  a_date :: string
  a_time :: string
  a_note :: string

text \<open>
  The application as far as its timer goes: the table, the titles handed to
  \<open>play_alarm\<close>, whether a call of \<open>check_alarms\<close> is due (the first one, made by
  \<open>__init__\<close>, or one scheduled with \<open>root.after\<close>), and for each coming database call
  whether it will raise.
\<close>

record autumn_app =
  a_db :: "autumn_task list"
  a_alarms :: "string list"
  a_pending :: bool
  a_faults :: "bool list"

text \<open>
  Lines 30-35. The due call is consumed; the query is not inside any \<open>try\<close>, so when it
  raises the exception leaves the function before \<open>root.after(60000, check_alarms)\<close> is
  reached and no further call is scheduled.
\<close>

definition check_alarms :: "pdatetime \<Rightarrow> autumn_app \<Rightarrow> error option \<times> autumn_app" where
  "check_alarms now s =
     (case a_faults s of
        True # fs \<Rightarrow> (Some StoreError, s\<lparr>a_pending := False, a_faults := fs\<rparr>)
      | fs \<Rightarrow>
          (None,
           s\<lparr>a_alarms := a_alarms s @
                  map a_title
                    (filter (\<lambda>t. a_date t @ '' '' @ a_time t = strftime_minute now) (a_db s)),
             a_pending := True, a_faults := tl fs\<rparr>))"

text \<open>
  The Tk main loop, run over the clock readings at which the timer would fire: a due call
  runs, an exception of the callback is reported and the loop goes on, and when no call is
  due nothing runs any more.
\<close>

fun autumn_mainloop :: "pdatetime list \<Rightarrow> autumn_app \<Rightarrow> autumn_app" where
  "autumn_mainloop [] s = s"
| "autumn_mainloop (now # rest) s =
     (if a_pending s then autumn_mainloop rest (snd (check_alarms now s)) else s)"

section \<open>The MySQL scheduler (\<open>hyper5.py\<close>, \<open>alarm_checker\<close>)\<close>







section \<open>Example tasks\<close>

text \<open>The tasks and clock readings the scenarios below run on.\<close>

definition nine_am :: pdatetime where
  "nine_am = DateTime (Date 2024 1 1) 9 0"

definition nine_01 :: pdatetime where
  "nine_01 = DateTime (Date 2024 1 1) 9 1"

definition math_hw :: task where
  "math_hw = \<lparr>task_id = 1, title = ''Math HW'', date = ''2024-01-01'', time = ''09:00'',
               description = Some ''ch 3'', completed = 0, recurrence = Some ''daily''\<rparr>"

definition math_hw_next :: task where
  "math_hw_next = \<lparr>task_id = 2, title = ''Math HW'', date = ''2024-01-02'', time = ''09:00'',
               description = Some ''ch 3'', completed = 0, recurrence = Some ''daily''\<rparr>"

definition math_hw_by_hand :: task where
  "math_hw_by_hand = \<lparr>task_id = 2, title = ''Math HW'', date = ''2024-01-02'',
               time = ''09:00'', description = Some ''typed in by hand'', completed = 1,
               recurrence = Some ''daily''\<rparr>"

definition math_hw_twin :: task where
  "math_hw_twin = \<lparr>task_id = 2, title = ''Math HW'', date = ''2024-01-01'', time = ''09:00'',
               description = Some ''ch 4'', completed = 0, recurrence = Some ''daily''\<rparr>"

definition one_off :: task where
  "one_off = \<lparr>task_id = 2, title = ''One-off'', date = ''2024-01-01'', time = ''09:00'',
               description = Some '''', completed = 0, recurrence = Some ''none''\<rparr>"

definition later_task :: task where
  "later_task = \<lparr>task_id = 3, title = ''Later'', date = ''2024-01-01'', time = ''09:01'',
               description = None, completed = 0, recurrence = Some ''none''\<rparr>"

definition capital_daily :: task where
  "capital_daily = \<lparr>task_id = 1, title = ''Piano'', date = ''2024-01-01'', time = ''09:00'',
               description = None, completed = 0, recurrence = Some ''Daily''\<rparr>"

definition yearly_task :: task where
  "yearly_task = \<lparr>task_id = 1, title = ''Piano'', date = ''2024-01-01'', time = ''09:00'',
               description = None, completed = 0, recurrence = Some ''yearly''\<rparr>"

definition autumn_later :: autumn_task where
  "autumn_later = \<lparr>a_id = 1, a_title = ''Later'', a_date = ''2024-01-01'', a_time = ''09:01'',
               a_note = ''x''\<rparr>"






section \<open>Calendar and string lemmas\<close>

lemma dby_Suc: "1 \<le> y \<Longrightarrow> days_before_year (Suc y) = days_before_year y + (if is_leap y then 366 else 365)"
proof -
  assume "1 \<le> y"
  then obtain k where k: "y = Suc k" by (cases y) auto
  define a b c where "a = k div 4" and "b = k div 100" and "c = k div 400"
  have le: "b \<le> a"
    unfolding a_def b_def by (rule div_le_mono2; simp)
  have m1: "Suc k mod 100 = 0 \<longrightarrow> Suc k mod 4 = 0"
  proof
    assume h: "Suc k mod 100 = 0"
    have "Suc k mod 100 mod 4 = Suc k mod 4" by (rule mod_mod_cancel) simp
    then show "Suc k mod 4 = 0" unfolding h by simp
  qed
  have m2: "Suc k mod 400 = 0 \<longrightarrow> Suc k mod 100 = 0"
  proof
    assume h: "Suc k mod 400 = 0"
    have "Suc k mod 400 mod 100 = Suc k mod 100" by (rule mod_mod_cancel) simp
    then show "Suc k mod 100 = 0" unfolding h by simp
  qed
  have s4: "Suc k div 4 = (if Suc k mod 4 = 0 then Suc a else a)"
    unfolding a_def by (rule div_Suc)
  have s100: "Suc k div 100 = (if Suc k mod 100 = 0 then Suc b else b)"
    unfolding b_def by (rule div_Suc)
  have s400: "Suc k div 400 = (if Suc k mod 400 = 0 then Suc c else c)"
    unfolding c_def by (rule div_Suc)
  have l: "days_before_year (Suc k) = k * 365 + a - b + c"
    by (simp add: days_before_year_def a_def b_def c_def)
  have r: "days_before_year (Suc (Suc k)) = Suc k * 365 + Suc k div 4 - Suc k div 100 + Suc k div 400"
    by (simp add: days_before_year_def)
  show ?thesis
  proof (cases "Suc k mod 4 = 0")
    case False
    have n100: "Suc k mod 100 \<noteq> 0" using False m1 by simp
    have n400: "Suc k mod 400 \<noteq> 0" using n100 m2 by simp
    from False n100 n400 show ?thesis
      unfolding k l r s4 s100 s400 is_leap_def using le by simp
  next
    case True
    show ?thesis
    proof (cases "Suc k mod 100 = 0")
      case False
      with m2 have "Suc k mod 400 \<noteq> 0" by simp
      with True False show ?thesis
        unfolding k l r s4 s100 s400 is_leap_def using le by simp
    next
      case h: True
      show ?thesis
      proof (cases "Suc k mod 400 = 0")
        case True
        with h \<open>Suc k mod 4 = 0\<close> show ?thesis
          unfolding k l r s4 s100 s400 is_leap_def using le by simp
      next
        case False
        with h \<open>Suc k mod 4 = 0\<close> show ?thesis
          unfolding k l r s4 s100 s400 is_leap_def using le by simp
      qed
    qed
  qed
qed

lemma dbm_12: "days_before_month y 12 + 31 = (if is_leap y then 366 else 365)"
  by (simp add: days_before_month_def days_in_month_def upt_rec numeral_eq_Suc)

lemma dbm_Suc: "1 \<le> m \<Longrightarrow> days_before_month y (Suc m) = days_before_month y m + days_in_month y m"
  by (simp add: days_before_month_def)

lemma dbm_1: "days_before_month y (Suc 0) = 0"
  by (simp add: days_before_month_def)

lemma toordinal_next_day: "valid_date d \<Longrightarrow> toordinal (next_day d) = toordinal d + 1"
proof -
  assume v: "valid_date d"
  consider (a) "day d < days_in_month (year d) (month d)"
    | (b) "day d = days_in_month (year d) (month d)" "month d < 12"
    | (c) "day d = days_in_month (year d) (month d)" "month d = 12"
    using v unfolding valid_date_def by linarith
  then show ?thesis
  proof cases
    case a
    then show ?thesis by (simp add: toordinal_def next_day_def)
  next
    case b
    then show ?thesis using v
      by (simp add: toordinal_def next_day_def valid_date_def dbm_Suc)
  next
    case c
    have "days_in_month (year d) 12 = 31" by (simp add: days_in_month_def)
    with c have d31: "day d = 31" by simp
    have y1: "1 \<le> year d" using v by (simp add: valid_date_def)
    show ?thesis using c d31 dbm_12 [of "year d"] dby_Suc [OF y1]
      by (simp add: toordinal_def next_day_def dbm_1)
  qed
qed

lemma of_char_digit: "n < 10 \<Longrightarrow> of_char (digit_char n) = 48 + n"
  by (simp add: digit_char_def)

lemma is_digit_digit_char: "n < 10 \<Longrightarrow> is_digit (digit_char n)"
  by (simp add: is_digit_def of_char_digit)

lemma digit_val_digit_char: "n < 10 \<Longrightarrow> digit_val (digit_char n) = n"
  by (simp add: digit_val_def of_char_digit)

lemma digit_char_neq_dash: "n < 10 \<Longrightarrow> digit_char n \<noteq> CHR ''-''"
proof
  assume "n < 10" and "digit_char n = CHR ''-''"
  then have "(of_char (digit_char n) :: nat) = of_char CHR ''-''" by simp
  with \<open>n < 10\<close> show False by (simp add: of_char_digit)
qed


lemma char_of_nat_eq: "(char_of (n::nat) = c) = (n mod 256 = of_char c)"
  by (simp add: char_of_eq_iff take_bit_eq_mod)

lemma digit_char_lits:
  "digit_char 0 = CHR ''0''" "digit_char 1 = CHR ''1''" "digit_char 2 = CHR ''2''"
  "digit_char 3 = CHR ''3''" "digit_char (Suc 0) = CHR ''1''"
  by (simp_all add: digit_char_def char_of_nat_eq)



lemma decimal4: "y \<le> 9999 \<Longrightarrow>
  1000 * (y div 1000 mod 10) + 100 * (y div 100 mod 10) + 10 * (y div 10 mod 10) + y mod 10 = (y::nat)"
proof -
  assume le: "y \<le> 9999"
  define a b c where "a = y div 10" and "b = a div 10" and "c = b div 10"
  have e100: "y div 100 = b" unfolding a_def b_def by (simp add: div_mult2_eq [symmetric])
  have e1000: "y div 1000 = c" unfolding a_def b_def c_def by (simp add: div_mult2_eq [symmetric])
  have c9: "c < 10" using le unfolding e1000 [symmetric] by simp
  then have cm: "c mod 10 = c" by simp
  have y: "10 * a + y mod 10 = y" unfolding a_def by simp
  have a: "10 * b + a mod 10 = a" unfolding b_def by simp
  have b: "10 * c + b mod 10 = b" unfolding c_def by simp
  have "1000 * c + 100 * (b mod 10) + 10 * (a mod 10) + y mod 10 = y"
    using y a b by linarith
  then show ?thesis
    unfolding e100 e1000 cm a_def [symmetric] .
qed

lemma parse_year_pad4: "y \<le> 9999 \<Longrightarrow> parse_year (pad4 y) = Some y"
  using decimal4 [of y]
  by (simp add: parse_year_def pad4_def is_digit_digit_char digit_val_digit_char)

lemma parse_month_pad2: "1 \<le> m \<Longrightarrow> m \<le> 12 \<Longrightarrow> parse_month (pad2 m) = Some m"
proof -
  assume m: "1 \<le> m" "m \<le> 12"
  show ?thesis
  proof (cases "m < 10")
    case True
    with m show ?thesis
      by (simp add: parse_month_def pad2_def digit_char_lits is_digit_digit_char digit_val_digit_char)
  next
    case False
    with m have d: "m div 10 = 1" "m mod 10 \<le> 2" "10 + m mod 10 = m" by presburger+
    then show ?thesis
      by (simp add: parse_month_def pad2_def digit_char_lits is_digit_digit_char digit_val_digit_char)
  qed
qed

lemma parse_day_pad2: "1 \<le> d \<Longrightarrow> d \<le> 31 \<Longrightarrow> parse_day (pad2 d) = Some d"
proof -
  assume d: "1 \<le> d" "d \<le> 31"
  consider (0) "d < 10" | (1) "10 \<le> d" "d < 20" | (2) "20 \<le> d" "d < 30" | (3) "30 \<le> d"
    by linarith
  then show ?thesis
  proof cases
    case 0
    with d show ?thesis
      by (simp add: parse_day_def pad2_def digit_char_lits is_digit_digit_char digit_val_def of_char_digit)
  next
    case 1
    then have "d div 10 = 1" "10 + d mod 10 = d" by presburger+
    then show ?thesis
      by (simp add: parse_day_def pad2_def digit_char_lits is_digit_digit_char digit_val_def of_char_digit)
  next
    case 2
    then have "d div 10 = 2" "20 + d mod 10 = d" by presburger+
    then show ?thesis
      by (simp add: parse_day_def pad2_def digit_char_lits is_digit_digit_char digit_val_def of_char_digit)
  next
    case 3
    with d have "d div 10 = 3" "30 + d mod 10 = d" "d mod 10 \<le> 1" by presburger+
    then show ?thesis
      by (simp add: parse_day_def pad2_def digit_char_lits is_digit_digit_char digit_val_def of_char_digit)
  qed
qed

lemma strptime_strftime: "valid_date d \<Longrightarrow> strptime_date (strftime_date d) = Inr d"
proof -
  assume v: "valid_date d"
  then have y: "year d \<le> 9999" and m: "1 \<le> month d" "month d \<le> 12" and dd: "1 \<le> day d"
    by (simp_all add: valid_date_def)
  have "days_in_month (year d) (month d) \<le> 31" by (simp add: days_in_month_def)
  with v have d31: "day d \<le> 31" by (simp add: valid_date_def)
  have nd: "\<And>n. digit_char (n mod 10) \<noteq> CHR ''-''" by (rule digit_char_neq_dash) simp
  have s: "strftime_date d = pad4 (year d) @ CHR ''-'' # pad2 (month d) @ CHR ''-'' # pad2 (day d)"
    by (simp add: strftime_date_def)
  have l4: "length (pad4 (year d)) = 4" by (simp add: pad4_def)
  have tw: "takeWhile (\<lambda>x. x \<noteq> CHR ''-'') (pad2 (month d) @ CHR ''-'' # pad2 (day d)) = pad2 (month d)"
    by (simp add: pad2_def nd)
  have dw: "dropWhile (\<lambda>x. x \<noteq> CHR ''-'') (pad2 (month d) @ CHR ''-'' # pad2 (day d)) = CHR ''-'' # pad2 (day d)"
    by (simp add: pad2_def nd)
  show ?thesis
    unfolding strptime_date_def s using v
    by (simp add: l4 tw dw parse_year_pad4 [OF y] parse_month_pad2 [OF m] parse_day_pad2 [OF dd d31])
qed
section \<open>Date arithmetic stays in range, or overflows\<close>

lemma strptime_valid: "strptime_date s = Inr d \<Longrightarrow> valid_date d"
  by (auto simp: strptime_date_def split: list.splits option.splits if_splits)

lemma valid_next_day: "valid_date d \<Longrightarrow> year (next_day d) \<le> 9999 \<Longrightarrow> valid_date (next_day d)"
  by (auto simp: valid_date_def next_day_def days_in_month_def split: if_splits)

lemma next_day_overflow: "valid_date d \<Longrightarrow> (9999 < year (next_day d)) = (d = Date 9999 12 31)"
  by (cases d) (auto simp: valid_date_def next_day_def days_in_month_def split: if_splits)

lemma dby_mono_Suc: "days_before_year y \<le> days_before_year (Suc y)"
proof (cases "1 \<le> y")
  case True
  then show ?thesis by (simp add: dby_Suc)
next
  case False
  then have "y = 0" by simp
  then show ?thesis by (simp add: days_before_year_def)
qed

lemma dby_mono: "y \<le> z \<Longrightarrow> days_before_year y \<le> days_before_year z"
  by (rule lift_Suc_mono_le [of days_before_year]) (rule dby_mono_Suc)

lemma dby_10000: "days_before_year 10000 = max_ordinal"
  by (simp add: days_before_year_def max_ordinal_def)

lemma dbm_mono: "m \<le> n \<Longrightarrow> days_before_month y m \<le> days_before_month y n"
proof (rule lift_Suc_mono_le [of "days_before_month y"])
  fix k show "days_before_month y k \<le> days_before_month y (Suc k)"
    by (cases "1 \<le> k") (simp_all add: dbm_Suc days_before_month_def)
qed

lemma dbm_13: "days_before_month y 13 = (if is_leap y then 366 else 365)"
  by (simp add: days_before_month_def days_in_month_def upt_rec numeral_eq_Suc)

lemma toordinal_le_next_year: "valid_date d \<Longrightarrow> toordinal d \<le> days_before_year (Suc (year d))"
proof -
  assume v: "valid_date d"
  then have m: "1 \<le> month d" "month d \<le> 12" and y: "1 \<le> year d"
    and dd: "day d \<le> days_in_month (year d) (month d)"
    by (simp_all add: valid_date_def)
  have "days_before_month (year d) (month d) + day d \<le> days_before_month (year d) (Suc (month d))"
    using dd m by (simp add: dbm_Suc)
  also have "\<dots> \<le> days_before_month (year d) 13"
    using m by (intro dbm_mono) simp
  finally have "days_before_month (year d) (month d) + day d \<le> (if is_leap (year d) then 366 else 365)"
    by (simp add: dbm_13)
  then show ?thesis
    unfolding toordinal_def dby_Suc [OF y] by simp
qed

lemma toordinal_le_max: "valid_date d \<Longrightarrow> toordinal d \<le> max_ordinal"
proof -
  assume v: "valid_date d"
  then have "Suc (year d) \<le> 10000" by (simp add: valid_date_def)
  then have "days_before_year (Suc (year d)) \<le> days_before_year 10000" by (rule dby_mono)
  with toordinal_le_next_year [OF v] show ?thesis by (simp add: dby_10000)
qed

lemma toordinal_max: "toordinal (Date 9999 12 31) = max_ordinal"
  using dbm_12 [of 9999]
  by (simp add: toordinal_def days_before_year_def max_ordinal_def is_leap_def)

lemma date_add_ok:
  "valid_date d \<Longrightarrow> date_add d n = Inr d' \<Longrightarrow> valid_date d' \<and> toordinal d' = toordinal d + n"
proof (induction n arbitrary: d)
  case 0
  then show ?case by simp
next
  case (Suc n)
  from Suc.prems(2) have y: "year (next_day d) \<le> 9999" and r: "date_add (next_day d) n = Inr d'"
    by (simp_all split: if_splits)
  have v: "valid_date (next_day d)" using Suc.prems(1) y by (rule valid_next_day)
  from Suc.IH [OF v r] toordinal_next_day [OF Suc.prems(1)] show ?case by simp
qed

lemma date_add_overflow:
  "valid_date d \<Longrightarrow> (date_add d n = Inl OverflowError) = (max_ordinal < toordinal d + n)"
proof (induction n arbitrary: d)
  case 0
  then show ?case using toordinal_le_max [of d] by simp
next
  case (Suc n)
  show ?case
  proof (cases "9999 < year (next_day d)")
    case True
    with Suc.prems have "d = Date 9999 12 31" by (simp add: next_day_overflow)
    with True show ?thesis using toordinal_max by simp
  next
    case False
    then have v: "valid_date (next_day d)" using Suc.prems by (simp add: valid_next_day)
    from False Suc.IH [OF v] toordinal_next_day [OF Suc.prems] show ?thesis by simp
  qed
qed

lemma date_add_cases:
  "date_add d n = Inl e \<Longrightarrow> e = OverflowError"
  by (induction n arbitrary: d) (auto split: if_splits)

lemma date_add_in_range:
  assumes "valid_date d" and "toordinal d + n \<le> max_ordinal"
  shows "\<exists>d'. date_add d n = Inr d' \<and> valid_date d' \<and> toordinal d' = toordinal d + n"
proof (cases "date_add d n")
  case (Inl e)
  then have "e = OverflowError" by (rule date_add_cases)
  with Inl assms show ?thesis by (simp add: date_add_overflow)
next
  case (Inr d')
  with date_add_ok [OF assms(1) Inr] show ?thesis by simp
qed

lemma date_add_out_of_range:
  "valid_date d \<Longrightarrow> \<not> toordinal d + n \<le> max_ordinal \<Longrightarrow> date_add d n = Inl OverflowError"
  by (simp add: date_add_overflow)

section \<open>Evaluating concrete dates and strings\<close>

lemma char_of_nat_eq2: "(c = char_of (n::nat)) = (n mod 256 = of_char c)"
  using char_of_nat_eq [of n c] by auto

lemma date_add_1: "date_add d 1 = (if 9999 < year (next_day d) then Inl OverflowError else Inr (next_day d))"
  by (simp add: One_nat_def del: One_nat_def [symmetric])

lemma date_add_numeral: "date_add d (numeral k) =
  (if 9999 < year (next_day d) then Inl OverflowError else date_add (next_day d) (pred_numeral k))"
  by (simp add: numeral_eq_Suc)

lemma date_add_Suc0: "date_add d (Suc 0) = (if 9999 < year (next_day d) then Inl OverflowError else Inr (next_day d))"
  by simp

lemmas date_eval = strptime_date_def parse_year_def parse_month_def parse_day_def is_digit_def
  digit_val_def valid_date_def days_in_month_def is_leap_def strftime_date_def pad4_def pad2_def
  digit_char_def char_of_nat_eq char_of_nat_eq2 next_day_def compute_next_date_def compute_next_date_h5_def
  date_add_1 date_add_numeral date_add_Suc0 strftime_minute_def lower_def lower_char_def

lemma toordinal_2024_12_31: "toordinal (Date 2024 12 31) = 739251"
  using dbm_12 [of 2024] by (simp add: toordinal_def days_before_year_def is_leap_def)

section \<open>Frame lemmas for the scheduler\<close>

lemma store_call_nofault: "faults s = [] \<Longrightarrow> store_call s = (False, s)"
  by (simp add: store_call_def)

lemma store_call_frame:
  "store_call s = (f, s') \<Longrightarrow>
     db s' = db s \<and> handled s' = handled s \<and> alarms s' = alarms s \<and> errlog s' = errlog s"
  by (auto simp: store_call_def split: list.splits)

lemma store_call_faults_empty: "store_call s = (f, s') \<Longrightarrow> faults s = [] \<Longrightarrow> faults s' = [] \<and> \<not> f"
  by (auto simp: store_call_def split: list.splits)

lemma advance_frame:
  "advance m r s = (e, s') \<Longrightarrow>
     handled s' = handled s \<and> alarms s' = alarms s \<and> errlog s' = errlog s"
proof -
  assume a: "advance m r s = (e, s')"
  show ?thesis
  proof (cases "compute_next_date (date m) (lower r)")
    case (Inl x)
    with a show ?thesis by (auto simp: advance_def)
  next
    case (Inr o1)
    show ?thesis
    proof (cases o1)
      case None
      with a Inr show ?thesis by (auto simp: advance_def)
    next
      case (Some nd)
      obtain f1 s1 where c1: "store_call s = (f1, s1)" by (cases "store_call s")
      obtain f2 s2 where c2: "store_call s1 = (f2, s2)" by (cases "store_call s1")
      obtain f3 s3 where c3: "store_call (s2\<lparr>db := insert_task (title m) nd (time m)
                                            (description m) r (db s2)\<rparr>) = (f3, s3)"
        by (cases "store_call (s2\<lparr>db := insert_task (title m) nd (time m) (description m) r (db s2)\<rparr>)")
      note fr = store_call_frame [OF c1] store_call_frame [OF c2] store_call_frame [OF c3]
      from a Inr Some c1 c2 c3 fr show ?thesis
        by (auto simp: advance_def split: if_splits bool.splits)
    qed
  qed
qed

lemma advance_db:
  "advance m r s = (e, s') \<Longrightarrow>
     db s' = db s \<or>
     (\<exists>nd. compute_next_date (date m) (lower r) = Inr (Some nd)
        \<and> count_same (title m) nd (time m) r (db s) = 0
        \<and> db s' = insert_task (title m) nd (time m) (description m) r (db s))"
proof -
  assume a: "advance m r s = (e, s')"
  show ?thesis
  proof (cases "compute_next_date (date m) (lower r)")
    case (Inl x)
    with a show ?thesis by (simp add: advance_def)
  next
    case (Inr o1)
    show ?thesis
    proof (cases o1)
      case None
      with a Inr show ?thesis by (simp add: advance_def)
    next
      case (Some nd)
      obtain f1 s1 where c1: "store_call s = (f1, s1)" by (cases "store_call s")
      obtain f2 s2 where c2: "store_call s1 = (f2, s2)" by (cases "store_call s1")
      obtain f3 s3 where c3: "store_call (s2\<lparr>db := insert_task (title m) nd (time m)
                                            (description m) r (db s2)\<rparr>) = (f3, s3)"
        by (cases "store_call (s2\<lparr>db := insert_task (title m) nd (time m) (description m) r (db s2)\<rparr>)")
      note fr = store_call_frame [OF c1] store_call_frame [OF c2] store_call_frame [OF c3]
      from a Inr Some c1 c2 c3 fr show ?thesis
        by (auto simp: advance_def split: if_splits bool.splits)
    qed
  qed
qed

lemma advance_nofault:
  "faults s = [] \<Longrightarrow>
   advance m r s =
     (case compute_next_date (date m) (lower r) of
        Inl e \<Rightarrow> (Some e, s)
      | Inr None \<Rightarrow> (None, s)
      | Inr (Some nd) \<Rightarrow>
          if nd \<noteq> [] \<and> count_same (title m) nd (time m) r (db s) = 0
          then (None, s\<lparr>db := insert_task (title m) nd (time m) (description m) r (db s)\<rparr>)
          else (None, s))"
  by (simp add: advance_def store_call_nofault split: sum.splits option.splits)

lemma advance_faults_empty: "advance m r s = (e, s') \<Longrightarrow> faults s = [] \<Longrightarrow> faults s' = []"
  by (auto simp: advance_nofault split: sum.splits option.splits if_splits)

lemma advance_duplicate:
  "count_same (title m) nd (time m) r (db s) \<noteq> 0 \<Longrightarrow>
   compute_next_date (date m) (lower r) = Inr (Some nd) \<Longrightarrow>
   advance m r s = (e, s') \<Longrightarrow> db s' = db s"
  by (auto dest!: advance_db)

lemma emit_alarm_simps:
  "db (emit_alarm key m s) = db s" "faults (emit_alarm key m s) = faults s"
  "errlog (emit_alarm key m s) = errlog s"
  "handled (emit_alarm key m s) = insert (task_id m, key) (handled s)"
  "alarms (emit_alarm key m s) = alarms s @ [(title m, description m)]"
  by (simp_all add: emit_alarm_def)

lemma handle_match_skip: "(task_id m, key) \<in> handled s \<Longrightarrow> handle_match key m s = (None, s)"
  by (simp add: handle_match_def)

lemma handle_match_frame:
  "handle_match key m s = (e, s') \<Longrightarrow> (task_id m, key) \<notin> handled s \<Longrightarrow>
     handled s' = insert (task_id m, key) (handled s)
     \<and> alarms s' = alarms s @ [(title m, description m)] \<and> errlog s' = errlog s"
proof -
  assume h: "handle_match key m s = (e, s')" and fresh: "(task_id m, key) \<notin> handled s"
  show ?thesis
  proof (cases "\<exists>r. recurrence m = Some r \<and> r \<noteq> [] \<and> (lower r = ''daily'' \<or> lower r = ''weekly'')")
    case True
    then obtain r where "recurrence m = Some r" "r \<noteq> []" "lower r = ''daily'' \<or> lower r = ''weekly''"
      by blast
    with h fresh have "advance m r (emit_alarm key m s) = (e, s')"
      by (simp add: handle_match_def)
    from advance_frame [OF this] show ?thesis by (simp add: emit_alarm_simps)
  next
    case False
    with h fresh have "s' = emit_alarm key m s"
      by (cases "recurrence m") (auto simp: handle_match_def split: if_splits)
    then show ?thesis by (simp add: emit_alarm_simps)
  qed
qed

lemma handle_match_errlog: "handle_match key m s = (e, s') \<Longrightarrow> errlog s' = errlog s"
  by (cases "(task_id m, key) \<in> handled s") (auto simp: handle_match_skip dest: handle_match_frame)

lemma handle_match_db:
  "handle_match key m s = (e, s') \<Longrightarrow>
     db s' = db s \<or>
     (\<exists>r nd. recurrence m = Some r \<and> compute_next_date (date m) (lower r) = Inr (Some nd)
        \<and> count_same (title m) nd (time m) r (db s) = 0
        \<and> db s' = insert_task (title m) nd (time m) (description m) r (db s))"
  by (auto simp: handle_match_def emit_alarm_simps split: option.splits if_splits dest!: advance_db)

lemma handle_match_faults_empty:
  "handle_match key m s = (e, s') \<Longrightarrow> faults s = [] \<Longrightarrow> faults s' = []"
  by (auto simp: handle_match_def emit_alarm_simps split: option.splits if_splits
      dest!: advance_faults_empty)


section \<open>What one check fires\<close>

lemma find_due_set: "set (find_due key rows) = {m \<in> set rows. date m @ '' '' @ time m = key}"
  by (auto simp: find_due_def)

lemma find_due_distinct: "distinct (map task_id rows) \<Longrightarrow> distinct (map task_id (find_due key rows))"
  by (simp add: find_due_def distinct_map_filter)

lemma tick_unfold:
  "tick now s =
     (case store_call s of
        (True, s1) \<Rightarrow> s1\<lparr>errlog := errlog s1 @ [StoreError]\<rparr>
      | (False, s1) \<Rightarrow>
          (case process_matches (strftime_minute now) (find_due (strftime_minute now) (db s1)) s1 of
             (Some e, s2) \<Rightarrow> s2\<lparr>errlog := errlog s2 @ [e]\<rparr>
           | (None, s2) \<Rightarrow> s2))"
  by (simp add: tick_def Let_def)


section \<open>Rows that are due carry a well-formed date\<close>

lemma split_at_unique:
  "c \<notin> set a \<Longrightarrow> c \<notin> set b \<Longrightarrow> a @ c # b = x @ c # y \<Longrightarrow> x = a \<and> y = b"
proof (induction a arbitrary: x)
  case Nil
  then show ?case by (cases x) auto
next
  case (Cons h a)
  then show ?case by (cases x) auto
qed

lemma digit_char_neq_space: "n < 10 \<Longrightarrow> digit_char n \<noteq> CHR '' ''"
proof
  assume "n < 10" and "digit_char n = CHR '' ''"
  then have "(of_char (digit_char n) :: nat) = of_char CHR '' ''" by simp
  with \<open>n < 10\<close> show False by (simp add: of_char_digit)
qed

lemma no_space_in_date: "CHR '' '' \<notin> set (strftime_date d)"
proof -
  have "\<And>n. digit_char (n mod 10) \<noteq> CHR '' ''" by (rule digit_char_neq_space) simp
  then show ?thesis
    by (simp add: strftime_date_def pad4_def pad2_def) metis
qed

lemma no_space_in_time: "CHR '' '' \<notin> set (pad2 h @ '':'' @ pad2 mi)"
proof -
  have "\<And>n. digit_char (n mod 10) \<noteq> CHR '' ''" by (rule digit_char_neq_space) simp
  then show ?thesis
    by (simp add: pad2_def) metis
qed

lemma due_row_fields:
  assumes "date m @ '' '' @ time m = strftime_minute now"
  shows "date m = strftime_date (dt_date now) \<and> time m = pad2 (hour now) @ '':'' @ pad2 (minute now)"
proof -
  have "strftime_date (dt_date now) @ CHR '' '' # (pad2 (hour now) @ '':'' @ pad2 (minute now))
        = date m @ CHR '' '' # time m"
    using assms by (simp add: strftime_minute_def)
  from split_at_unique [OF no_space_in_date no_space_in_time this] show ?thesis by simp
qed

lemma due_row_well_formed:
  assumes "valid_datetime now" and "date m @ '' '' @ time m = strftime_minute now"
  shows "strptime_date (date m) = Inr (dt_date now)"
  using assms due_row_fields [OF assms(2)] by (simp add: valid_datetime_def strptime_strftime)

lemma strftime_date_nonempty: "strftime_date d \<noteq> []"
  by (simp add: strftime_date_def pad4_def)

lemma lower_daily: "lower ''daily'' = ''daily''" "lower ''weekly'' = ''weekly''" "lower ''none'' = ''none''"
  by (simp_all add: lower_def lower_char_def)

section \<open>Advancing twice\<close>

lemma emit_alarm_recurrence: "emit_alarm key (m\<lparr>recurrence := r\<rparr>) s = emit_alarm key m s"
  by (simp add: emit_alarm_def)

lemma compute_next_date_neq:
  assumes "compute_next_date ds rc = Inr (Some nd)"
  shows "nd \<noteq> ds"
proof
  assume eq: "nd = ds"
  from assms obtain d where d: "strptime_date ds = Inr d"
    by (auto simp: compute_next_date_def split: sum.splits)
  then have v: "valid_date d" by (rule strptime_valid)
  from assms d obtain n d' where n: "n = 1 \<or> n = 7" and a: "date_add d n = Inr d'"
    and nd: "nd = strftime_date d'"
    by (auto simp: compute_next_date_def split: sum.splits if_splits simp del: date_add.simps)
  from date_add_ok [OF v a] have v': "valid_date d'" and o: "toordinal d' = toordinal d + n"
    by simp_all
  from strptime_strftime [OF v'] nd eq d have "d' = d" by simp
  with o n show False by auto
qed

lemma compute_next_date_nonempty: "compute_next_date ds rc = Inr (Some nd) \<Longrightarrow> nd \<noteq> []"
  by (auto simp: compute_next_date_def strftime_date_nonempty split: sum.splits if_splits
      simp del: date_add.simps)

lemma find_due_append: "find_due key (rows @ [row]) =
    find_due key rows @ (if date row @ '' '' @ time row = key then [row] else [])"
  by (simp add: find_due_def)

lemma handle_match_keeps_due:
  assumes "handle_match key m s = (e, s')" and "date m @ '' '' @ time m = key"
  shows "find_due key (db s') = find_due key (db s)"
proof -
  from handle_match_db [OF assms(1)] show ?thesis
  proof
    assume "db s' = db s"
    then show ?thesis by simp
  next
    assume "\<exists>r nd. recurrence m = Some r \<and> compute_next_date (date m) (lower r) = Inr (Some nd)
        \<and> count_same (title m) nd (time m) r (db s) = 0
        \<and> db s' = insert_task (title m) nd (time m) (description m) r (db s)"
    then obtain r nd where c: "compute_next_date (date m) (lower r) = Inr (Some nd)"
      and d: "db s' = insert_task (title m) nd (time m) (description m) r (db s)" by blast
    from compute_next_date_neq [OF c] have "nd \<noteq> date m" .
    with assms(2) have "nd @ '' '' @ time m \<noteq> key" by auto
    then show ?thesis by (simp add: d insert_task_def find_due_append)
  qed
qed

lemma process_matches_keeps_due:
  "process_matches key ms s = (e, s') \<Longrightarrow> \<forall>m\<in>set ms. date m @ '' '' @ time m = key \<Longrightarrow>
   find_due key (db s') = find_due key (db s)"
proof (induction ms arbitrary: s)
  case Nil
  then show ?case by simp
next
  case (Cons m ms)
  obtain e1 s1 where h: "handle_match key m s = (e1, s1)" by (cases "handle_match key m s")
  from Cons.prems(2) have dm: "date m @ '' '' @ time m = key" by simp
  have k: "find_due key (db s1) = find_due key (db s)"
    using h dm by (rule handle_match_keeps_due)
  show ?case
  proof (cases e1)
    case (Some x)
    with h Cons.prems(1) k show ?thesis by simp
  next
    case None
    with h Cons.prems(1) have "process_matches key ms s1 = (e, s')" by simp
    from Cons.IH [OF this] Cons.prems(2) k show ?thesis by simp
  qed
qed

lemma handle_match_db_mono: "handle_match key m s = (e, s') \<Longrightarrow> set (db s) \<subseteq> set (db s')"
  by (drule handle_match_db) (auto simp: insert_task_def)

lemma process_matches_db_mono: "process_matches key ms s = (e, s') \<Longrightarrow> set (db s) \<subseteq> set (db s')"
proof (induction ms arbitrary: s)
  case Nil
  then show ?case by simp
next
  case (Cons m ms)
  obtain e1 s1 where h: "handle_match key m s = (e1, s1)" by (cases "handle_match key m s")
  show ?case
  proof (cases e1)
    case (Some x)
    with h Cons.prems handle_match_db_mono [OF h] show ?thesis by simp
  next
    case None
    with h Cons.prems have "process_matches key ms s1 = (e, s')" by simp
    from Cons.IH [OF this] handle_match_db_mono [OF h] show ?thesis by blast
  qed
qed

lemma count_same_nonzero:
  "(count_same t d tm r rows \<noteq> 0) =
   (\<exists>x\<in>set rows. title x = t \<and> date x = d \<and> time x = tm \<and> recurrence x = Some r)"
  by (auto simp: count_same_def filter_empty_conv)

lemma count_same_mono:
  "count_same t d tm r rows \<noteq> 0 \<Longrightarrow> set rows \<subseteq> set rows' \<Longrightarrow> count_same t d tm r rows' \<noteq> 0"
  unfolding count_same_nonzero by blast

lemma handle_match_settles:
  assumes h: "handle_match key m s = (None, s')" and nofault: "faults s = []"
    and fresh: "(task_id m, key) \<notin> handled s"
    and rec: "recurrence m = Some r" "r \<noteq> []" "lower r = ''daily'' \<or> lower r = ''weekly''"
    and c: "compute_next_date (date m) (lower r) = Inr (Some nd)"
  shows "count_same (title m) nd (time m) r (db s') \<noteq> 0"
proof -
  have f1: "faults (emit_alarm key m s) = []" using nofault by (simp add: emit_alarm_simps)
  have a: "advance m r (emit_alarm key m s) = (None, s')"
    using h fresh rec by (simp add: handle_match_def)
  note ne = compute_next_date_nonempty [OF c]
  show ?thesis
  proof (cases "count_same (title m) nd (time m) r (db s) = 0")
    case True
    with a c ne have "db s' = insert_task (title m) nd (time m) (description m) r (db s)"
      by (auto simp: advance_nofault [OF f1] emit_alarm_simps split: if_splits)
    then show ?thesis by (simp add: count_same_def insert_task_def)
  next
    case False
    with a c have "db s' = db s"
      by (auto simp: advance_nofault [OF f1] emit_alarm_simps split: if_splits)
    with False show ?thesis by simp
  qed
qed

lemma handle_match_error_is_date_error:
  assumes h: "handle_match key m s = (Some e, s')" and nofault: "faults s = []"
  shows "\<exists>r. recurrence m = Some r \<and> r \<noteq> [] \<and> (lower r = ''daily'' \<or> lower r = ''weekly'')
     \<and> compute_next_date (date m) (lower r) = Inl e"
proof -
  have f1: "faults (emit_alarm key m s) = []" using nofault by (simp add: emit_alarm_simps)
  from h show ?thesis
    by (auto simp: handle_match_def advance_nofault [OF f1]
        split: if_splits option.splits sum.splits)
qed

lemma handle_match_date_error:
  assumes "(task_id m, key) \<notin> handled s"
    and "recurrence m = Some r" "r \<noteq> []" "lower r = ''daily'' \<or> lower r = ''weekly''"
    and "compute_next_date (date m) (lower r) = Inl e"
  shows "handle_match key m s = (Some e, emit_alarm key m s)"
  using assms by (simp add: handle_match_def advance_def)

lemma handle_match_settled_noop:
  assumes h: "handle_match key m s = (e, s')"
    and settled: "\<And>r nd. recurrence m = Some r \<Longrightarrow> compute_next_date (date m) (lower r) = Inr (Some nd)
        \<Longrightarrow> count_same (title m) nd (time m) r (db s) \<noteq> 0"
  shows "db s' = db s"
  using handle_match_db [OF h] settled by blast

lemma second_run_adds_nothing:
  assumes "process_matches key ms s1 = (e1, s1')" and "faults s1 = []"
    and "distinct (map task_id ms)"
    and "\<forall>m\<in>set ms. (task_id m, key) \<notin> handled s1"
    and "\<forall>m\<in>set ms. (task_id m, key) \<notin> handled s2"
    and "set (db s1') \<subseteq> set (db s2)"
  shows "db (snd (process_matches key ms s2)) = db s2"
  using assms
proof (induction ms arbitrary: s1 s2)
  case Nil
  then show ?case by simp
next
  case (Cons m ms)
  obtain a t1 where h1: "handle_match key m s1 = (a, t1)" by (cases "handle_match key m s1")
  obtain b t2 where h2: "handle_match key m s2 = (b, t2)" by (cases "handle_match key m s2")
  from Cons.prems(4) have fresh1: "(task_id m, key) \<notin> handled s1" by simp
  from Cons.prems(5) have fresh2: "(task_id m, key) \<notin> handled s2" by simp
  show ?case
  proof (cases a)
    case (Some err)
    from handle_match_error_is_date_error [OF h1 [unfolded Some] Cons.prems(2)]
    obtain r where "recurrence m = Some r" "r \<noteq> []" "lower r = ''daily'' \<or> lower r = ''weekly''"
      "compute_next_date (date m) (lower r) = Inl err" by blast
    from handle_match_date_error [OF fresh2 this]
    show ?thesis by (simp add: emit_alarm_simps)
  next
    case None
    with h1 Cons.prems(1) have run1: "process_matches key ms t1 = (e1, s1')" by simp
    have grow: "set (db t1) \<subseteq> set (db s2)"
      using process_matches_db_mono [OF run1] Cons.prems(6) by blast
    have settled: "\<And>r nd. recurrence m = Some r \<Longrightarrow>
        compute_next_date (date m) (lower r) = Inr (Some nd) \<Longrightarrow>
        count_same (title m) nd (time m) r (db s2) \<noteq> 0"
    proof -
      fix r nd assume r: "recurrence m = Some r"
        and c: "compute_next_date (date m) (lower r) = Inr (Some nd)"
      show "count_same (title m) nd (time m) r (db s2) \<noteq> 0"
      proof (cases "r \<noteq> [] \<and> (lower r = ''daily'' \<or> lower r = ''weekly'')")
        case True
        then have "count_same (title m) nd (time m) r (db t1) \<noteq> 0"
          using handle_match_settles [OF h1 [unfolded None] Cons.prems(2) fresh1 r _ _ c] by blast
        then show ?thesis using grow by (rule count_same_mono)
      next
        case False
        then have "lower r \<noteq> ''daily'' \<and> lower r \<noteq> ''weekly''"
          by (auto simp: lower_def)
        with c show ?thesis
          by (auto simp: compute_next_date_def split: sum.splits if_splits)
      qed
    qed
    have same: "db t2 = db s2" using h2 settled by (rule handle_match_settled_noop)
    show ?thesis
    proof (cases b)
      case (Some err)
      with h2 same show ?thesis by simp
    next
      case None
      note f1 = handle_match_frame [OF h1 fresh1]
      note f2 = handle_match_frame [OF h2 fresh2]
      have "task_id m \<notin> task_id ` set ms" using Cons.prems(3) by simp
      then have ids: "\<forall>x\<in>set ms. task_id x \<noteq> task_id m"
        using imageI [of _ "set ms" task_id] by metis
      have a1: "faults t1 = []" using h1 Cons.prems(2) by (rule handle_match_faults_empty)
      have a2: "distinct (map task_id ms)" using Cons.prems(3) by simp
      have a3: "\<forall>x\<in>set ms. (task_id x, key) \<notin> handled t1" using Cons.prems(4) f1 ids by simp
      have a4: "\<forall>x\<in>set ms. (task_id x, key) \<notin> handled t2" using Cons.prems(5) f2 ids by simp
      have a5: "set (db s1') \<subseteq> set (db t2)" using Cons.prems(6) same by simp
      from Cons.IH [OF run1 a1 a2 a3 a4 a5] h2 None same show ?thesis by simp
    qed
  qed
qed

lemma tick_db_nofault:
  assumes "faults s = []"
  shows "db (tick now s) =
         db (snd (process_matches (strftime_minute now) (find_due (strftime_minute now) (db s)) s))"
proof -
  obtain e s2 where "process_matches (strftime_minute now) (find_due (strftime_minute now) (db s)) s = (e, s2)"
    by (cases "process_matches (strftime_minute now) (find_due (strftime_minute now) (db s)) s")
  then show ?thesis
    using assms by (cases e) (simp_all add: tick_unfold store_call_nofault)
qed

lemma tick_db_any:
  "db (tick now s) = db s \<or>
   (\<exists>s1. db s1 = db s \<and> handled s1 = handled s \<and>
      db (tick now s) =
        db (snd (process_matches (strftime_minute now) (find_due (strftime_minute now) (db s)) s1)))"
proof -
  obtain f s1 where sc: "store_call s = (f, s1)" by (cases "store_call s")
  note fr = store_call_frame [OF sc]
  show ?thesis
  proof (cases f)
    case True
    with sc fr show ?thesis by (simp add: tick_unfold)
  next
    case False
    obtain e s2 where pm: "process_matches (strftime_minute now) (find_due (strftime_minute now) (db s)) s1 = (e, s2)"
      by (cases "process_matches (strftime_minute now) (find_due (strftime_minute now) (db s)) s1")
    have "db (tick now s) = db s2"
      using sc False pm fr by (cases e) (simp_all add: tick_unfold)
    with pm fr show ?thesis by (intro disjI2 exI [of _ s1]) simp
  qed
qed

lemma process_matches_errlog: "process_matches key ms s = (e, s') \<Longrightarrow> errlog s' = errlog s"
proof (induction ms arbitrary: s)
  case Nil
  then show ?case by simp
next
  case (Cons m ms)
  obtain e1 s1 where h: "handle_match key m s = (e1, s1)" by (cases "handle_match key m s")
  show ?case
  proof (cases e1)
    case (Some x)
    with h Cons.prems handle_match_errlog [OF h] show ?thesis by simp
  next
    case None
    with h Cons.prems have "process_matches key ms s1 = (e, s')" by simp
    from Cons.IH [OF this] handle_match_errlog [OF h] show ?thesis by simp
  qed
qed

section \<open>Failures and the loop\<close>

lemma tick_read_failure:
  "faults s = True # fs \<Longrightarrow> tick now s = s\<lparr>faults := fs, errlog := errlog s @ [StoreError]\<rparr>"
  by (simp add: tick_unfold store_call_def)

lemma tick_logs_at_most_once:
  "errlog (tick now s) = errlog s \<or> (\<exists>e. errlog (tick now s) = errlog s @ [e])"
proof -
  obtain f s1 where sc: "store_call s = (f, s1)" by (cases "store_call s")
  note fr = store_call_frame [OF sc]
  show ?thesis
  proof (cases f)
    case True
    with sc fr show ?thesis by (simp add: tick_unfold)
  next
    case False
    obtain e s2 where pm: "process_matches (strftime_minute now) (find_due (strftime_minute now) (db s1)) s1 = (e, s2)"
      by (cases "process_matches (strftime_minute now) (find_due (strftime_minute now) (db s1)) s1")
    have "errlog s2 = errlog s1" using pm by (rule process_matches_errlog)
    with sc False pm fr show ?thesis by (cases e) (simp_all add: tick_unfold)
  qed
qed

lemma alarm_checker_continues:
  "\<not> stop_set ob \<Longrightarrow> alarm_checker (ob # obs) s = alarm_checker obs (iteration (clock ob) s)"
  by simp

lemma alarm_checker_stops: "stop_set ob \<Longrightarrow> alarm_checker (ob # obs) s = s"
  by simp

section \<open>Evaluating the scheduler on the example tasks\<close>

lemmas sched_eval = tick_def store_call_def find_due_def process_matches.simps handle_match_def
  emit_alarm_def advance_def count_same_def insert_task_def next_id_def initial_def iteration_def
  Let_def

lemmas example_defs = nine_am_def nine_01_def math_hw_def math_hw_next_def math_hw_by_hand_def
  math_hw_twin_def one_off_def later_task_def capital_daily_def yearly_task_def autumn_later_def

lemma key_nine_am: "strftime_minute nine_am = ''2024-01-01 09:00''"
  by (simp add: nine_am_def date_eval)

lemma key_nine_01: "strftime_minute nine_01 = ''2024-01-01 09:01''"
  by (simp add: nine_01_def date_eval)

lemma next_date_2024_01_01: "compute_next_date ''2024-01-01'' ''daily'' = Inr (Some ''2024-01-02'')"
  by (simp add: date_eval)

lemma tick_math_hw:
  "tick nine_am (initial [math_hw] []) =
     \<lparr>db = [math_hw, math_hw_next], handled = {(1, ''2024-01-01 09:00'')},
       alarms = [(''Math HW'', Some ''ch 3'')], errlog = [], faults = []\<rparr>"
  by (simp add: sched_eval key_nine_am next_date_2024_01_01 lower_daily math_hw_def math_hw_next_def)


lemma valid_nine_am: "valid_datetime nine_am"
  by (simp add: nine_am_def valid_datetime_def valid_date_def days_in_month_def)

lemma toordinal_2024_01_01: "toordinal (Date 2024 1 1) = 738886"
  by (simp add: toordinal_def days_before_year_def days_before_month_def)

lemma lower_capital_daily: "lower ''Daily'' = ''daily''"
  by (simp add: lower_def lower_char_def char_of_nat_eq)

lemma raining2_survives_failed_read:
  "alarm_checker [Observation False nine_am, Observation False nine_01]
       (initial [later_task] [True])
     = \<lparr>db = [later_task], handled = {}, alarms = [(''Later'', None)],
         errlog = [StoreError], faults = []\<rparr>"
  by (simp add: sched_eval key_nine_am key_nine_01 later_task_def lower_daily)



subsection \<open>Passes of the loop under a clock that moves forward\<close>








lemma finite_handled_insert:
  "finite H \<Longrightarrow> p \<notin> H \<Longrightarrow> card (insert p H) = Suc (card H)"
  by simp








section \<open>The recurrence engine\<close>

text \<open>
  Claim C5, as the code has it. For a string that \<open>strptime\<close> accepts as the date \<open>d\<close>,
  \<open>compute_next_date\<close> (both the text variant of \<open>raining2.py\<close> and the date variant of
  \<open>hyper5.py\<close>) returns no result for \<open>none\<close>; for \<open>daily\<close> it returns the date one day
  after \<open>d\<close> and for \<open>weekly\<close> the date seven days after \<open>d\<close>, as long as that date is not
  after 9999-12-31; when it is, the function raises \<open>OverflowError\<close> instead of returning.
  The text variant returns that date written as \<open>YYYY-MM-DD\<close>; this is stated for dates
  from the year 1000 on, where \<open>strftime\<close> prints four digits of the year on every
  platform.
\<close>

theorem compute_next_date_spec:
  assumes "strptime_date s = Inr d"
  shows "compute_next_date s ''none'' = Inr None \<and> compute_next_date_h5 d ''none'' = Inr None
    \<and> (if toordinal d + 1 \<le> max_ordinal
        then \<exists>d'. valid_date d' \<and> toordinal d' = toordinal d + 1
               \<and> compute_next_date_h5 d ''daily'' = Inr (Some d')
               \<and> (1000 \<le> year d \<longrightarrow>
                    compute_next_date s ''daily'' = Inr (Some (strftime_date d')))
        else compute_next_date s ''daily'' = Inl OverflowError
               \<and> compute_next_date_h5 d ''daily'' = Inl OverflowError)
    \<and> (if toordinal d + 7 \<le> max_ordinal
        then \<exists>d'. valid_date d' \<and> toordinal d' = toordinal d + 7
               \<and> compute_next_date_h5 d ''weekly'' = Inr (Some d')
               \<and> (1000 \<le> year d \<longrightarrow>
                    compute_next_date s ''weekly'' = Inr (Some (strftime_date d')))
        else compute_next_date s ''weekly'' = Inl OverflowError
               \<and> compute_next_date_h5 d ''weekly'' = Inl OverflowError)"
proof -
  have v: "valid_date d" using assms by (rule strptime_valid)
  have none: "compute_next_date s ''none'' = Inr None \<and> compute_next_date_h5 d ''none'' = Inr None"
    using assms by (simp add: compute_next_date_def compute_next_date_h5_def)
  have daily: "if toordinal d + 1 \<le> max_ordinal
        then \<exists>d'. valid_date d' \<and> toordinal d' = toordinal d + 1
               \<and> compute_next_date_h5 d ''daily'' = Inr (Some d')
               \<and> (1000 \<le> year d \<longrightarrow>
                    compute_next_date s ''daily'' = Inr (Some (strftime_date d')))
        else compute_next_date s ''daily'' = Inl OverflowError
               \<and> compute_next_date_h5 d ''daily'' = Inl OverflowError"
  proof (cases "toordinal d + 1 \<le> max_ordinal")
    case True
    from date_add_in_range [OF v True] obtain d' where
      "date_add d 1 = Inr d'" "valid_date d'" "toordinal d' = toordinal d + 1" by blast
    with True assms show ?thesis
      by (simp add: compute_next_date_def compute_next_date_h5_def del: date_add.simps)
  next
    case False
    from date_add_out_of_range [OF v False] False assms show ?thesis
      by (simp add: compute_next_date_def compute_next_date_h5_def del: date_add.simps)
  qed
  have weekly: "if toordinal d + 7 \<le> max_ordinal
        then \<exists>d'. valid_date d' \<and> toordinal d' = toordinal d + 7
               \<and> compute_next_date_h5 d ''weekly'' = Inr (Some d')
               \<and> (1000 \<le> year d \<longrightarrow>
                    compute_next_date s ''weekly'' = Inr (Some (strftime_date d')))
        else compute_next_date s ''weekly'' = Inl OverflowError
               \<and> compute_next_date_h5 d ''weekly'' = Inl OverflowError"
  proof (cases "toordinal d + 7 \<le> max_ordinal")
    case True
    from date_add_in_range [OF v True] obtain d' where
      "date_add d 7 = Inr d'" "valid_date d'" "toordinal d' = toordinal d + 7" by blast
    with True assms show ?thesis
      by (simp add: compute_next_date_def compute_next_date_h5_def del: date_add.simps)
  next
    case False
    from date_add_out_of_range [OF v False] False assms show ?thesis
      by (simp add: compute_next_date_def compute_next_date_h5_def del: date_add.simps)
  qed
  from none daily weekly show ?thesis by blast
qed

text \<open>The theorem at 2024-12-31: the next day and the next week cross the year's end.\<close>

theorem compute_next_date_spec_witness:
  "strptime_date ''2024-12-31'' = Inr (Date 2024 12 31)
   \<and> 1000 \<le> year (Date 2024 12 31)
   \<and> compute_next_date ''2024-12-31'' ''none'' = Inr None
   \<and> (\<exists>d'. toordinal d' = 739252 \<and> compute_next_date ''2024-12-31'' ''daily'' = Inr (Some (strftime_date d')))
   \<and> (\<exists>d'. toordinal d' = 739258 \<and> compute_next_date_h5 (Date 2024 12 31) ''weekly'' = Inr (Some d'))"
proof -
  have p: "strptime_date ''2024-12-31'' = Inr (Date 2024 12 31)" by (simp add: date_eval)
  show ?thesis
    using compute_next_date_spec [OF p] p
    by (simp add: toordinal_2024_12_31 max_ordinal_def) blast
qed

text \<open>
  Claim C5 as stated ("for every valid date") fails at the end of the calendar:
  9999-12-31 is a valid date, and \<open>daily\<close> raises \<open>OverflowError\<close> on it, as
  \<open>weekly\<close> does from 9999-12-25 on.
\<close>

theorem compute_next_date_counterexample:
  "strptime_date ''9999-12-31'' = Inr (Date 9999 12 31)
   \<and> compute_next_date ''9999-12-31'' ''daily'' = Inl OverflowError
   \<and> compute_next_date_h5 (Date 9999 12 31) ''daily'' = Inl OverflowError
   \<and> compute_next_date ''9999-12-25'' ''weekly'' = Inl OverflowError"
  by (simp add: date_eval)

section \<open>Claim C1: firing a daily task\<close>

text \<open>
  Claim C1, as the code has it. A row that is due at the current minute and not yet
  handled fires: its alarm is emitted. With the store answering and the next day within
  the calendar, a row whose recurrence is \<open>daily\<close> gets its successor, a new row with the
  same title, description, time and recurrence, the date of the next day and
  \<open>completed = 0\<close>, appended after the existing rows, which stay as they are (the firing
  row and its \<open>completed\<close> field among them) -- unless a row with that title, date, time
  and recurrence exists already, in which case nothing is inserted. A row whose
  recurrence is \<open>none\<close> inserts nothing.
\<close>

theorem fire_daily_or_none:
  assumes now: "valid_datetime now"
    and due: "date m @ '' '' @ time m = strftime_minute now"
    and fresh: "(task_id m, strftime_minute now) \<notin> handled s"
    and nofault: "faults s = []"
  shows "(recurrence m = Some ''none'' \<longrightarrow>
            (\<exists>s'. handle_match (strftime_minute now) m s = (None, s')
               \<and> alarms s' = alarms s @ [(title m, description m)] \<and> db s' = db s))
     \<and> (recurrence m = Some ''daily'' \<and> toordinal (dt_date now) + 1 \<le> max_ordinal \<longrightarrow>
            (\<exists>s' d'. valid_date d' \<and> toordinal d' = toordinal (dt_date now) + 1
               \<and> handle_match (strftime_minute now) m s = (None, s')
               \<and> alarms s' = alarms s @ [(title m, description m)]
               \<and> db s' =
                   (if count_same (title m) (strftime_date d') (time m) ''daily'' (db s) = 0
                    then db s @ [\<lparr>task_id = next_id (db s), title = title m,
                                   date = strftime_date d', time = time m,
                                   description = description m, completed = 0,
                                   recurrence = Some ''daily''\<rparr>]
                    else db s)))"
proof (intro conjI impI)
  let ?key = "strftime_minute now"
  assume "recurrence m = Some ''none''"
  with fresh have "handle_match ?key m s = (None, emit_alarm ?key m s)"
    by (simp add: handle_match_def lower_daily)
  then show "\<exists>s'. handle_match ?key m s = (None, s')
      \<and> alarms s' = alarms s @ [(title m, description m)] \<and> db s' = db s"
    by (simp add: emit_alarm_simps)
next
  let ?key = "strftime_minute now"
  let ?s1 = "emit_alarm ?key m s"
  assume a: "recurrence m = Some ''daily'' \<and> toordinal (dt_date now) + 1 \<le> max_ordinal"
  have v: "valid_date (dt_date now)" using now by (simp add: valid_datetime_def)
  from date_add_in_range [OF v] a obtain d' where d': "date_add (dt_date now) 1 = Inr d'"
    "valid_date d'" "toordinal d' = toordinal (dt_date now) + 1" by blast
  have p: "strptime_date (date m) = Inr (dt_date now)" using now due by (rule due_row_well_formed)
  have c: "compute_next_date (date m) ''daily'' = Inr (Some (strftime_date d'))"
    using p d'(1) by (simp add: compute_next_date_def del: date_add.simps)
  have f1: "faults ?s1 = []" using nofault by (simp add: emit_alarm_simps)
  have h: "handle_match ?key m s = advance m ''daily'' ?s1"
    using a fresh by (simp add: handle_match_def lower_daily)
  have adv: "advance m ''daily'' ?s1 =
     (if count_same (title m) (strftime_date d') (time m) ''daily'' (db s) = 0
      then (None, ?s1\<lparr>db := insert_task (title m) (strftime_date d') (time m) (description m) ''daily'' (db s)\<rparr>)
      else (None, ?s1))"
    using c by (simp add: advance_nofault [OF f1] lower_daily strftime_date_nonempty emit_alarm_simps)
  show "\<exists>s' d'. valid_date d' \<and> toordinal d' = toordinal (dt_date now) + 1
               \<and> handle_match ?key m s = (None, s')
               \<and> alarms s' = alarms s @ [(title m, description m)]
               \<and> db s' =
                   (if count_same (title m) (strftime_date d') (time m) ''daily'' (db s) = 0
                    then db s @ [\<lparr>task_id = next_id (db s), title = title m,
                                   date = strftime_date d', time = time m,
                                   description = description m, completed = 0,
                                   recurrence = Some ''daily''\<rparr>]
                    else db s)"
  proof (cases "count_same (title m) (strftime_date d') (time m) ''daily'' (db s) = 0")
    case True
    with h adv d'(2,3) show ?thesis
      by (intro exI [of _ "?s1\<lparr>db := insert_task (title m) (strftime_date d') (time m) (description m) ''daily'' (db s)\<rparr>"] exI [of _ d'])
         (simp add: emit_alarm_simps insert_task_def)
  next
    case False
    with h adv d'(2,3) show ?thesis
      by (intro exI [of _ ?s1] exI [of _ d']) (simp add: emit_alarm_simps)
  qed
qed

text \<open>
  The theorem at the Math HW task of 2024-01-01 09:00, alone in the table.
\<close>

theorem fire_daily_or_none_witness:
  "valid_datetime nine_am
   \<and> date math_hw @ '' '' @ time math_hw = strftime_minute nine_am
   \<and> (task_id math_hw, strftime_minute nine_am) \<notin> handled (initial [math_hw] [])
   \<and> faults (initial [math_hw] []) = []
   \<and> recurrence math_hw = Some ''daily''
   \<and> toordinal (dt_date nine_am) + 1 \<le> max_ordinal
   \<and> (\<exists>s' d'. valid_date d' \<and> toordinal d' = toordinal (dt_date nine_am) + 1
         \<and> handle_match (strftime_minute nine_am) math_hw (initial [math_hw] []) = (None, s')
         \<and> alarms s' = alarms (initial [math_hw] []) @ [(title math_hw, description math_hw)]
         \<and> db s' =
             (if count_same (title math_hw) (strftime_date d') (time math_hw) ''daily''
                   (db (initial [math_hw] [])) = 0
              then db (initial [math_hw] []) @
                     [\<lparr>task_id = next_id (db (initial [math_hw] [])), title = title math_hw,
                        date = strftime_date d', time = time math_hw,
                        description = description math_hw, completed = 0,
                        recurrence = Some ''daily''\<rparr>]
              else db (initial [math_hw] [])))"
proof -
  have due: "date math_hw @ '' '' @ time math_hw = strftime_minute nine_am"
    by (simp add: key_nine_am math_hw_def)
  have fresh: "(task_id math_hw, strftime_minute nine_am) \<notin> handled (initial [math_hw] [])"
    by (simp add: initial_def)
  have nofault: "faults (initial [math_hw] []) = []" by (simp add: initial_def)
  have r: "recurrence math_hw = Some ''daily''" by (simp add: math_hw_def)
  have o: "toordinal (dt_date nine_am) + 1 \<le> max_ordinal"
    by (simp add: nine_am_def toordinal_def days_before_year_def days_before_month_def
        max_ordinal_def)
  from fire_daily_or_none [OF valid_nine_am due fresh nofault] r o valid_nine_am due fresh nofault
  show ?thesis by blast
qed

text \<open>
  Claim C1 as stated ("every daily task that fires inserts exactly one new task") fails
  when the successor's title, date, time and recurrence are already in the table, here
  as a row entered by hand: the daily task fires, no error is logged, and the table is
  unchanged.
\<close>

theorem fire_daily_existing_counterexample:
  "recurrence math_hw = Some ''daily''
   \<and> date math_hw @ '' '' @ time math_hw = strftime_minute nine_am
   \<and> alarms (tick nine_am (initial [math_hw, math_hw_by_hand] [])) = [(''Math HW'', Some ''ch 3'')]
   \<and> errlog (tick nine_am (initial [math_hw, math_hw_by_hand] [])) = []
   \<and> db (tick nine_am (initial [math_hw, math_hw_by_hand] [])) = [math_hw, math_hw_by_hand]"
  by (simp add: sched_eval key_nine_am next_date_2024_01_01 lower_daily math_hw_def
      math_hw_by_hand_def)

section \<open>Claim C2: advancing is idempotent\<close>


text \<open>
  \<open>raining2.py\<close> has the check that \<open>hyper5.py\<close> lacks. After one pass of its loop
  that met no store failure, a second pass at the same clock reading --
  \<open>handled_this_minute\<close> cleared in between, as the loop does, and whatever the store
  does during the second pass --
  leaves the table as the first pass left it: every successor the second pass could
  insert is found by the duplicate check.
\<close>

theorem second_check_adds_nothing:
  assumes h0: "handled s = {}" and nofault: "faults s = []"
    and ids: "distinct (map task_id (db s))"
  shows "db (iteration now ((iteration now s)\<lparr>faults := fs\<rparr>)) = db (iteration now s)"
proof -
  let ?key = "strftime_minute now"
  let ?due = "find_due ?key (db s)"
  let ?t = "(iteration now s)\<lparr>faults := fs\<rparr>"
  obtain e1 s1' where run1: "process_matches ?key ?due s = (e1, s1')"
    by (cases "process_matches ?key ?due s")
  have db1: "db (iteration now s) = db s1'"
    using tick_db_nofault [OF nofault, of now] run1 by (simp add: iteration_def)
  have dbt: "db ?t = db s1'" using db1 by simp
  have ht: "handled ?t = {}" by (simp add: iteration_def)
  have alldue: "\<forall>m\<in>set ?due. date m @ '' '' @ time m = ?key" by (simp add: find_due_set)
  have due2: "find_due ?key (db ?t) = ?due"
    using process_matches_keeps_due [OF run1 alldue] dbt by simp
  have d: "distinct (map task_id ?due)" using ids by (rule find_due_distinct)
  have "db (tick now ?t) = db ?t"
  proof -
    from tick_db_any [of now ?t] show ?thesis
    proof
      assume "db (tick now ?t) = db ?t"
      then show ?thesis .
    next
      assume "\<exists>s1. db s1 = db ?t \<and> handled s1 = handled ?t \<and>
        db (tick now ?t) = db (snd (process_matches ?key (find_due ?key (db ?t)) s1))"
      then obtain s2 where s2: "db s2 = db ?t" "handled s2 = handled ?t"
        "db (tick now ?t) = db (snd (process_matches ?key (find_due ?key (db ?t)) s2))" by blast
      have f1: "\<forall>m\<in>set ?due. (task_id m, ?key) \<notin> handled s" using h0 by simp
      have f2: "\<forall>m\<in>set ?due. (task_id m, ?key) \<notin> handled s2" using s2(2) ht by simp
      have sub: "set (db s1') \<subseteq> set (db s2)" using s2(1) dbt by simp
      from second_run_adds_nothing [OF run1 nofault d f1 f2 sub]
      have "db (snd (process_matches ?key ?due s2)) = db s2" .
      with s2 due2 show ?thesis by simp
    qed
  qed
  then show ?thesis using db1 by (simp add: iteration_def)
qed

text \<open>
  At the Math HW task: the first pass inserts the row of 2024-01-02, the second nothing.
\<close>

theorem second_check_adds_nothing_witness:
  "handled (initial [math_hw] []) = {} \<and> faults (initial [math_hw] []) = []
   \<and> distinct (map task_id (db (initial [math_hw] [])))
   \<and> db (iteration nine_am (initial [math_hw] [])) = [math_hw, math_hw_next]
   \<and> db (iteration nine_am ((iteration nine_am (initial [math_hw] []))\<lparr>faults := []\<rparr>))
        = [math_hw, math_hw_next]"
proof -
  have h0: "handled (initial [math_hw] []) = {}" by (simp add: initial_def)
  have nf: "faults (initial [math_hw] []) = []" by (simp add: initial_def)
  have ids: "distinct (map task_id (db (initial [math_hw] [])))" by (simp add: initial_def)
  have d1: "db (iteration nine_am (initial [math_hw] [])) = [math_hw, math_hw_next]"
    by (simp add: iteration_def tick_math_hw)
  from second_check_adds_nothing [OF h0 nf ids, of nine_am "[]"] d1 h0 nf ids
  show ?thesis by simp
qed

section \<open>Claim C3: which tasks a check fires\<close>




text \<open>
  A check that logs an error may still have fired every due row: the alarm of a row is
  emitted before its next occurrence is looked up, so with Math HW as the last due row
  the failing duplicate query comes after both alarms.
\<close>

lemma tick_error_after_last_alarm:
  "alarms (tick nine_am (initial [one_off, math_hw] [False, True]))
     = [(''One-off'', Some ''''), (''Math HW'', Some ''ch 3'')]
   \<and> errlog (tick nine_am (initial [one_off, math_hw] [False, True])) = [StoreError]"
  by (simp add: sched_eval key_nine_am next_date_2024_01_01 lower_daily math_hw_def one_off_def)

section \<open>Claim C4: at most one firing per task and minute\<close>



text \<open>
  The hypothesis on the clock is needed. \<open>handled_this_minute\<close> is cleared at the end of
  every pass (line 174), so it does not separate two passes: if two passes did read
  the same minute, which a clock that moves forward does not allow, the alarm of a task
  due in that minute would be emitted in both.
\<close>

lemma same_minute_readings_fire_twice:
  "alarms (alarm_checker [Observation False nine_am, Observation False nine_am]
             (initial [one_off] []))
     = [(''One-off'', Some ''''), (''One-off'', Some '''')]
   \<and> \<not> forward_clock [Observation False nine_am, Observation False nine_am]"
  by (simp add: sched_eval key_nine_am one_off_def lower_daily forward_clock_def)

section \<open>Claim C6: recurrence values that are not recognised\<close>

text \<open>
  Claim C6, as the code has it. A row whose recurrence is \<open>NULL\<close>, or is ASCII text
  that lower-cased is neither \<open>daily\<close> nor \<open>weekly\<close>, is handled exactly as the same row
  with recurrence \<open>none\<close>: no exception, no database call, no new row. (The restriction
  to ASCII is that of \<open>lower\<close>: \<open>str.lower\<close> also maps some characters outside ASCII to
  ASCII letters.)
\<close>

theorem unrecognised_recurrence_as_none:
  assumes "case recurrence m of None \<Rightarrow> True
           | Some r \<Rightarrow> is_ascii r \<and> lower r \<noteq> ''daily'' \<and> lower r \<noteq> ''weekly''"
  shows "handle_match key m s = handle_match key (m\<lparr>recurrence := Some ''none''\<rparr>) s
     \<and> fst (handle_match key m s) = None
     \<and> db (snd (handle_match key m s)) = db s
     \<and> faults (snd (handle_match key m s)) = faults s"
proof (cases "(task_id m, key) \<in> handled s")
  case True
  then show ?thesis by (simp add: handle_match_def)
next
  case False
  with assms show ?thesis
    by (cases "recurrence m")
       (simp_all add: handle_match_def lower_daily emit_alarm_recurrence emit_alarm_simps)
qed

text \<open>
  The theorem at a task whose recurrence is \<open>yearly\<close>, with a store that would fail.
\<close>

theorem unrecognised_recurrence_as_none_witness:
  "is_ascii ''yearly'' \<and> lower ''yearly'' \<noteq> ''daily'' \<and> lower ''yearly'' \<noteq> ''weekly''
   \<and> handle_match ''2024-01-01 09:00'' yearly_task (initial [yearly_task] [True])
       = handle_match ''2024-01-01 09:00'' (yearly_task\<lparr>recurrence := Some ''none''\<rparr>)
           (initial [yearly_task] [True])
   \<and> fst (handle_match ''2024-01-01 09:00'' yearly_task (initial [yearly_task] [True])) = None
   \<and> db (snd (handle_match ''2024-01-01 09:00'' yearly_task (initial [yearly_task] [True])))
       = db (initial [yearly_task] [True])"
proof -
  have l: "is_ascii ''yearly'' \<and> lower ''yearly'' \<noteq> ''daily'' \<and> lower ''yearly'' \<noteq> ''weekly''"
    by (simp add: is_ascii_def lower_def lower_char_def)
  then have a: "case recurrence yearly_task of None \<Rightarrow> True
           | Some r \<Rightarrow> is_ascii r \<and> lower r \<noteq> ''daily'' \<and> lower r \<noteq> ''weekly''"
    by (simp add: yearly_task_def)
  from unrecognised_recurrence_as_none [OF a, of "''2024-01-01 09:00''" "initial [yearly_task] [True]"] l
  show ?thesis by blast
qed

text \<open>
  Claim C6 as stated ("anything other than the exact strings") fails for \<open>Daily\<close>: the
  scheduler lower-cases the recurrence before comparing, and the task gets a successor,
  which keeps the spelling \<open>Daily\<close>.
\<close>

theorem capital_daily_counterexample:
  "recurrence capital_daily = Some ''Daily''
   \<and> errlog (tick nine_am (initial [capital_daily] [])) = []
   \<and> db (tick nine_am (initial [capital_daily] [])) =
       [capital_daily,
        \<lparr>task_id = 2, title = ''Piano'', date = ''2024-01-02'', time = ''09:00'',
          description = None, completed = 0, recurrence = Some ''Daily''\<rparr>]"
  by (simp add: sched_eval key_nine_am next_date_2024_01_01 capital_daily_def
      lower_capital_daily)

section \<open>Claim C7: a failed read in the first scheduler\<close>

text \<open>
  Claim C7 at \<open>check_alarms\<close> of \<open>autumn.py\<close>: when the query of the 09:00 check raises,
  no further check is scheduled, and the task due at 09:01 never sounds; with a store
  that does not fail it does. (The thread of \<open>raining2.py\<close> logs the error and goes on:
  \<open>raining2_survives_failed_read\<close>.)
\<close>

theorem autumn_failed_read_stops_polling:
  "autumn_mainloop [nine_am, nine_01]
       \<lparr>a_db = [autumn_later], a_alarms = [], a_pending = True, a_faults = [True]\<rparr>
     = \<lparr>a_db = [autumn_later], a_alarms = [], a_pending = False, a_faults = []\<rparr>
   \<and> autumn_mainloop [nine_am, nine_01]
       \<lparr>a_db = [autumn_later], a_alarms = [], a_pending = True, a_faults = []\<rparr>
     = \<lparr>a_db = [autumn_later], a_alarms = [''Later''], a_pending = True, a_faults = []\<rparr>"
  by (simp add: check_alarms_def key_nine_am key_nine_01 autumn_later_def)

section \<open>Claim C10: what the duplicate check compares\<close>

text \<open>
  Claim C10. For a recurring row that fires and whose next date is \<open>nd\<close>: when any row
  \<open>t\<close> of the table -- whatever its id, description and \<open>completed\<close> -- has the firing
  row's title, time and recurrence and the date \<open>nd\<close>, no successor is inserted, and with
  the store answering no exception is raised either. So two rows \<open>m\<close> and \<open>m'\<close> with
  different ids that share title, date, time and recurrence, processed one after the
  other, leave one successor between them -- the one of \<open>m\<close>, with its description.
\<close>

theorem duplicate_check_four_fields:
  assumes fresh: "(task_id m, key) \<notin> handled s"
    and rec: "recurrence m = Some r" "r \<noteq> []" "lower r = ''daily'' \<or> lower r = ''weekly''"
    and next_date: "compute_next_date (date m) (lower r) = Inr (Some nd)"
  shows "(t \<in> set (db s) \<and> title t = title m \<and> date t = nd \<and> time t = time m
            \<and> recurrence t = Some r \<longrightarrow>
          db (snd (handle_match key m s)) = db s
          \<and> (faults s = [] \<longrightarrow> handle_match key m s = (None, emit_alarm key m s)))
     \<and> (faults s = [] \<and> count_same (title m) nd (time m) r (db s) = 0
          \<and> (task_id m', key) \<notin> handled s \<and> task_id m' \<noteq> task_id m
          \<and> title m' = title m \<and> date m' = date m \<and> time m' = time m \<and> recurrence m' = Some r
          \<longrightarrow>
          db (snd (process_matches key [m, m'] s)) =
            db s @ [\<lparr>task_id = next_id (db s), title = title m, date = nd, time = time m,
                      description = description m, completed = 0, recurrence = Some r\<rparr>])"
proof (rule conjI; rule impI)
  assume t: "t \<in> set (db s) \<and> title t = title m \<and> date t = nd \<and> time t = time m \<and> recurrence t = Some r"
  then have "filter (\<lambda>x. title x = title m \<and> date x = nd \<and> time x = time m \<and> recurrence x = Some r) (db s) \<noteq> []"
    by (auto simp: filter_empty_conv)
  then have cnt: "count_same (title m) nd (time m) r (db (emit_alarm key m s)) \<noteq> 0"
    by (simp add: count_same_def emit_alarm_simps)
  have h: "handle_match key m s = advance m r (emit_alarm key m s)"
    using fresh rec by (simp add: handle_match_def)
  obtain e s' where a: "advance m r (emit_alarm key m s) = (e, s')"
    by (cases "advance m r (emit_alarm key m s)")
  from advance_duplicate [OF cnt next_date a] h a
  have unchanged: "db (snd (handle_match key m s)) = db s" by (simp add: emit_alarm_simps)
  have silent: "faults s = [] \<longrightarrow> handle_match key m s = (None, emit_alarm key m s)"
  proof
    assume "faults s = []"
    then have "faults (emit_alarm key m s) = []" by (simp add: emit_alarm_simps)
    from advance_nofault [OF this] next_date cnt h
    show "handle_match key m s = (None, emit_alarm key m s)" by simp
  qed
  from unchanged silent
  show "db (snd (handle_match key m s)) = db s
          \<and> (faults s = [] \<longrightarrow> handle_match key m s = (None, emit_alarm key m s))" ..
next
  let ?row = "\<lparr>task_id = next_id (db s), title = title m, date = nd, time = time m,
                      description = description m, completed = 0, recurrence = Some r\<rparr>"
  let ?s1 = "(emit_alarm key m s)\<lparr>db := db s @ [?row]\<rparr>"
  assume a: "faults s = [] \<and> count_same (title m) nd (time m) r (db s) = 0
          \<and> (task_id m', key) \<notin> handled s \<and> task_id m' \<noteq> task_id m
          \<and> title m' = title m \<and> date m' = date m \<and> time m' = time m \<and> recurrence m' = Some r"
  have nd: "nd \<noteq> []"
    using next_date rec(3)
    by (auto simp: compute_next_date_def strftime_date_nonempty split: sum.splits if_splits)
  have f1: "faults (emit_alarm key m s) = []" using a by (simp add: emit_alarm_simps)
  have h1: "handle_match key m s = (None, ?s1)"
    using fresh rec next_date a nd
    by (simp add: handle_match_def advance_nofault [OF f1] emit_alarm_simps insert_task_def)
  have fresh2: "(task_id m', key) \<notin> handled ?s1" using a by (simp add: emit_alarm_simps)
  have f2: "faults (emit_alarm key m' ?s1) = []" using a by (simp add: emit_alarm_simps)
  have cnt2: "count_same (title m') nd (time m') r (db (emit_alarm key m' ?s1)) \<noteq> 0"
    using a by (simp add: count_same_def emit_alarm_simps)
  have next2: "compute_next_date (date m') (lower r) = Inr (Some nd)" using a next_date by simp
  have h2: "handle_match key m' ?s1 = (None, emit_alarm key m' ?s1)"
    using fresh2 rec a next2 cnt2
    by (simp add: handle_match_def advance_nofault [OF f2])
  show "db (snd (process_matches key [m, m'] s)) = db s @ [?row]"
    by (simp add: h1 h2 emit_alarm_simps)
qed

text \<open>
  The theorem at Math HW: with the row entered by hand for 2024-01-02 in the table nothing
  is inserted, and Math HW with its twin (another description) gets one successor.
\<close>

theorem duplicate_check_four_fields_witness:
  "(task_id math_hw, ''2024-01-01 09:00'') \<notin> handled (initial [math_hw, math_hw_by_hand] [])
   \<and> compute_next_date (date math_hw) (lower ''daily'') = Inr (Some ''2024-01-02'')
   \<and> math_hw_by_hand \<in> set (db (initial [math_hw, math_hw_by_hand] []))
   \<and> description math_hw_by_hand \<noteq> description math_hw
   \<and> handle_match ''2024-01-01 09:00'' math_hw (initial [math_hw, math_hw_by_hand] [])
        = (None, emit_alarm ''2024-01-01 09:00'' math_hw (initial [math_hw, math_hw_by_hand] []))
   \<and> description math_hw_twin \<noteq> description math_hw
   \<and> db (snd (process_matches ''2024-01-01 09:00'' [math_hw, math_hw_twin]
                 (initial [math_hw, math_hw_twin] [])))
        = [math_hw, math_hw_twin,
           \<lparr>task_id = 3, title = ''Math HW'', date = ''2024-01-02'', time = ''09:00'',
             description = Some ''ch 3'', completed = 0, recurrence = Some ''daily''\<rparr>]"
proof -
  let ?key = "''2024-01-01 09:00''"
  let ?s = "initial [math_hw, math_hw_by_hand] []"
  let ?t = "initial [math_hw, math_hw_twin] []"
  have fresh: "(task_id math_hw, ?key) \<notin> handled ?s" by (simp add: initial_def)
  have fresh': "(task_id math_hw, ?key) \<notin> handled ?t" by (simp add: initial_def)
  have r: "recurrence math_hw = Some ''daily''" by (simp add: math_hw_def)
  have ne: "''daily'' \<noteq> []" by simp
  have lw: "lower ''daily'' = ''daily'' \<or> lower ''daily'' = ''weekly''" by (simp add: lower_daily)
  have c: "compute_next_date (date math_hw) (lower ''daily'') = Inr (Some ''2024-01-02'')"
    by (simp add: lower_daily math_hw_def next_date_2024_01_01)
  have dup: "math_hw_by_hand \<in> set (db ?s) \<and> title math_hw_by_hand = title math_hw
      \<and> date math_hw_by_hand = ''2024-01-02'' \<and> time math_hw_by_hand = time math_hw
      \<and> recurrence math_hw_by_hand = Some ''daily''"
    by (simp add: initial_def math_hw_def math_hw_by_hand_def)
  have nf: "faults ?s = []" by (simp add: initial_def)
  have twin: "faults ?t = [] \<and> count_same (title math_hw) ''2024-01-02'' (time math_hw) ''daily'' (db ?t) = 0
      \<and> (task_id math_hw_twin, ?key) \<notin> handled ?t \<and> task_id math_hw_twin \<noteq> task_id math_hw
      \<and> title math_hw_twin = title math_hw \<and> date math_hw_twin = date math_hw
      \<and> time math_hw_twin = time math_hw \<and> recurrence math_hw_twin = Some ''daily''"
    by (simp add: initial_def count_same_def math_hw_def math_hw_twin_def)
  have nid: "next_id (db ?t) = 3"
    by (simp add: initial_def next_id_def math_hw_def math_hw_twin_def)
  have dd: "description math_hw_by_hand \<noteq> description math_hw"
     "description math_hw_twin \<noteq> description math_hw"
    by (simp_all add: math_hw_def math_hw_by_hand_def math_hw_twin_def)
  from duplicate_check_four_fields [OF fresh r ne lw c, of math_hw_by_hand] dup nf
  have one: "handle_match ?key math_hw ?s = (None, emit_alarm ?key math_hw ?s)" by blast
  from duplicate_check_four_fields [OF fresh' r ne lw c, of _ math_hw_twin] twin
  have two: "db (snd (process_matches ?key [math_hw, math_hw_twin] ?t)) =
      db ?t @ [\<lparr>task_id = next_id (db ?t), title = title math_hw, date = ''2024-01-02'',
                 time = time math_hw, description = description math_hw, completed = 0,
                 recurrence = Some ''daily''\<rparr>]" by blast
  have row: "db ?t @ [\<lparr>task_id = next_id (db ?t), title = title math_hw, date = ''2024-01-02'',
                 time = time math_hw, description = description math_hw, completed = 0,
                 recurrence = Some ''daily''\<rparr>]
        = [math_hw, math_hw_twin,
           \<lparr>task_id = 3, title = ''Math HW'', date = ''2024-01-02'', time = ''09:00'',
             description = Some ''ch 3'', completed = 0, recurrence = Some ''daily''\<rparr>]"
    unfolding nid by (simp add: initial_def math_hw_def)
  from fresh c dup dd one two row show ?thesis by simp
qed


end
